theory Spec2Isabelle
  imports Complex_Main "HOL-Library.Multiset"
begin

section \<open>Strings as the classification script uses them\<close>

text \<open>
  The script \<^verbatim>\<open>LLM-SecDB/5_run.py\<close> works on Python \<^verbatim>\<open>str\<close> values. A string is
  modelled as a \<^typ>\<open>string\<close> whose characters are the code points 0..255; on this range
  \<^verbatim>\<open>str.isspace\<close>, the regex class \<^verbatim>\<open>\s\<close> and \<^verbatim>\<open>str.lower\<close> are the functions below
  (lowercasing is per character and stays inside the range).
\<close>

definition is_space :: "char \<Rightarrow> bool" where
  "is_space c = (c \<in> set [CHR 0x09, CHR 0x0A, CHR 0x0B, CHR 0x0C, CHR 0x0D,
                           CHR 0x1C, CHR 0x1D, CHR 0x1E, CHR 0x1F, CHR 0x20,
                           CHR 0x85, CHR 0xA0])"

definition lower_char :: "char \<Rightarrow> char" where
  "lower_char c =
     (let n = (of_char c :: nat)
      in if (65 \<le> n \<and> n \<le> 90) \<or> (192 \<le> n \<and> n \<le> 222 \<and> n \<noteq> 215)
         then char_of (n + 32) else c)"

definition lower :: "string \<Rightarrow> string" where
  "lower s = map lower_char s"

definition lstrip :: "string \<Rightarrow> string" where
  "lstrip s = dropWhile is_space s"

definition rstrip :: "string \<Rightarrow> string" where
  "rstrip s = rev (dropWhile is_space (rev s))"

definition strip :: "string \<Rightarrow> string" where
  "strip s = rstrip (lstrip s)"

text \<open>\<^verbatim>\<open>s.startswith(p)\<close> and \<^verbatim>\<open>s.endswith(p)\<close>.\<close>

definition startswith :: "string \<Rightarrow> string \<Rightarrow> bool" where
  "startswith s p = (take (length p) s = p)"

definition endswith :: "string \<Rightarrow> string \<Rightarrow> bool" where
  "endswith s p = (length p \<le> length s \<and> drop (length s - length p) s = p)"

text \<open>\<^verbatim>\<open>s[5:-6]\<close>: an empty slice when the string has at most eleven characters.\<close>

definition slice_5_m6 :: "string \<Rightarrow> string" where
  "slice_5_m6 s = drop 5 (take (length s - 6) s)"

text \<open>\<^verbatim>\<open>s.split(",")\<close>: always at least one part.\<close>

fun split_comma :: "string \<Rightarrow> string list" where
  "split_comma [] = [[]]"
| "split_comma (c # cs) =
     (if c = CHR '','' then [] # split_comma cs
      else (case split_comma cs of p # ps \<Rightarrow> (c # p) # ps | [] \<Rightarrow> [[c]]))"

text \<open>\<^verbatim>\<open>p.replace("network_identifiers:", "network_identifiers")\<close>: every occurrence,
  left to right, without overlap.\<close>

function replace_ni :: "string \<Rightarrow> string" where
  "replace_ni [] = []"
| "replace_ni (c # cs) =
     (if startswith (c # cs) ''network_identifiers:''
      then ''network_identifiers'' @ replace_ni (drop 20 (c # cs))
      else c # replace_ni cs)"
  by pat_completeness auto
termination
  by (relation "measure length") auto

section \<open>Prompt parsing: the answer block\<close>

definition ALLOWED_LABELS :: "string set" where
  "ALLOWED_LABELS = {''credentials'', ''network_identifiers'', ''pii'', ''conflict'',
                     ''peerreview'', ''none''}"

text \<open>
  \<^verbatim>\<open>XML_RE = re.compile(r"<xml>.*?</xml>", re.IGNORECASE | re.DOTALL)\<close>.
  A literal of the pattern matches a character when their lowercase forms agree.
  \<open>lazy_close\<close> is \<^verbatim>\<open>.*?</xml>\<close> anchored at the head of its argument (the shortest
  match), \<open>XML_RE_search\<close> is \<^verbatim>\<open>XML_RE.search(text).group(0)\<close>: the match at the
  leftmost position that has one.
\<close>

definition ci_match :: "string \<Rightarrow> string \<Rightarrow> bool" where
  "ci_match p s = (length p \<le> length s \<and> lower (take (length p) s) = lower p)"

fun lazy_close :: "string \<Rightarrow> string option" where
  "lazy_close [] = None"
| "lazy_close (c # cs) =
     (if ci_match ''</xml>'' (c # cs) then Some (take 6 (c # cs))
      else map_option ((#) c) (lazy_close cs))"

fun XML_RE_search :: "string \<Rightarrow> string option" where
  "XML_RE_search [] = None"
| "XML_RE_search (c # cs) =
     (if ci_match ''<xml>'' (c # cs)
      then (case lazy_close (drop 5 (c # cs)) of
              Some m \<Rightarrow> Some (take 5 (c # cs) @ m)
            | None \<Rightarrow> XML_RE_search cs)
      else XML_RE_search cs)"

definition extract_xml_answer :: "string option \<Rightarrow> string option" where
  "extract_xml_answer text =
     (case text of
        None \<Rightarrow> None
      | Some t \<Rightarrow> if t = [] then None else map_option strip (XML_RE_search t))"

text \<open>
  The salvage of \<open>sanitize_xml\<close>: \<^verbatim>\<open>re.sub(r"^`+|`+$", "", s)\<close> removes the leading and
  the trailing run of backticks (the argument is already stripped, so \<^verbatim>\<open>$\<close> is the end
  of the string), and \<^verbatim>\<open>re.sub(r"[^a-zA-Z0-9_,\-\s]", "", s)\<close> keeps the characters of
  the class.
\<close>

definition strip_backticks :: "string \<Rightarrow> string" where
  "strip_backticks s =
     rev (dropWhile (\<lambda>c. c = CHR 0x60) (rev (dropWhile (\<lambda>c. c = CHR 0x60) s)))"

definition salvage_char :: "char \<Rightarrow> bool" where
  "salvage_char c =
     (let n = (of_char c :: nat)
      in (97 \<le> n \<and> n \<le> 122) \<or> (65 \<le> n \<and> n \<le> 90) \<or> (48 \<le> n \<and> n \<le> 57)
         \<or> c = CHR ''_'' \<or> c = CHR '','' \<or> c = CHR ''-'' \<or> is_space c)"

definition salvage_inner :: "string \<Rightarrow> string" where
  "salvage_inner xml_text =
     strip (filter salvage_char (strip (strip_backticks xml_text)))"

definition sanitize_xml :: "string option \<Rightarrow> string option" where
  "sanitize_xml x =
     (case x of
        None \<Rightarrow> None
      | Some t \<Rightarrow>
          if t = [] then None
          else let xml_text = strip t
               in if startswith (lower xml_text) ''<xml>'' \<and> endswith (lower xml_text) ''</xml>''
                  then Some xml_text
                  else let inner = salvage_inner xml_text
                       in if inner \<noteq> [] then Some (''<xml>'' @ inner @ ''</xml>'') else None)"

text \<open>The characters that \<^verbatim>\<open>re.sub(r"[^a-z_]", "", p)\<close> keeps.\<close>

definition label_char :: "char \<Rightarrow> bool" where
  "label_char c = (let n = (of_char c :: nat) in (97 \<le> n \<and> n \<le> 122) \<or> c = CHR ''_'')"

text \<open>The first loop of \<open>parse_labels_from_xml\<close>; \<open>None\<close> is the early
  \<^verbatim>\<open>return []\<close> at a sentinel.\<close>

fun collect_labels :: "string list \<Rightarrow> string list \<Rightarrow> string list option" where
  "collect_labels [] labels = Some labels"
| "collect_labels (p0 # parts) labels =
     (let p = filter label_char (replace_ni p0)
      in if p = [] then collect_labels parts labels
         else if p = ''none'' then None
         else if p \<in> ALLOWED_LABELS \<and> p \<noteq> ''none'' then collect_labels parts (labels @ [p])
         else collect_labels parts labels)"

text \<open>The de-duplication loop, with its \<open>seen\<close> set and \<open>out\<close> list.\<close>

fun dedup_loop :: "string list \<Rightarrow> string set \<Rightarrow> string list \<Rightarrow> string list" where
  "dedup_loop [] seen out = out"
| "dedup_loop (l # ls) seen out =
     (if l \<notin> seen then dedup_loop ls (insert l seen) (out @ [l])
      else dedup_loop ls seen out)"

definition parse_labels_from_xml :: "string \<Rightarrow> string list" where
  "parse_labels_from_xml xml_text =
     (let content = strip (slice_5_m6 (strip xml_text))
      in if content = [] then []
         else let parts = map (\<lambda>p. lower (strip p)) (split_comma content)
              in (case collect_labels parts [] of
                    None \<Rightarrow> []
                  | Some labels \<Rightarrow> dedup_loop labels {} []))"


section \<open>Ground truth\<close>

text \<open>
  An input record is a JSON object, in Python a \<^verbatim>\<open>dict\<close> from field names to values.
\<close>

datatype json = JNull | JBool bool | JNum int | JStr string | JArr "json list"
  | JObj "(string \<times> json) list"

type_synonym pyrecord = "string \<rightharpoonup> json"

text \<open>The \<^verbatim>\<open>dict\<close> that \<^verbatim>\<open>json.loads\<close> builds from the members of an object: of
  two members with the same name the later one stays.\<close>

definition dict_of_items :: "(string \<times> json) list \<Rightarrow> pyrecord" where
  "dict_of_items items = map_of (rev items)"

text \<open>\<^verbatim>\<open>rec.get(key, "")\<close>.\<close>

definition get_or_empty :: "pyrecord \<Rightarrow> string \<Rightarrow> json" where
  "get_or_empty rec key = (case rec key of None \<Rightarrow> JStr [] | Some v \<Rightarrow> v)"

text \<open>The first loop of \<open>parse_ground_truth_labels\<close>: it has neither the
  \<^verbatim>\<open>continue\<close> nor the early \<^verbatim>\<open>return []\<close> of \<open>parse_labels_from_xml\<close>.\<close>

fun gt_collect_labels :: "string list \<Rightarrow> string list \<Rightarrow> string list" where
  "gt_collect_labels [] labels = labels"
| "gt_collect_labels (p0 # parts) labels =
     (let p = filter label_char (replace_ni p0)
      in if p \<in> ALLOWED_LABELS \<and> p \<noteq> ''none'' then gt_collect_labels parts (labels @ [p])
         else gt_collect_labels parts labels)"

definition parse_ground_truth_labels :: "pyrecord \<Rightarrow> string list" where
  "parse_ground_truth_labels rec =
     (case get_or_empty rec ''classification'' of
        JStr raw \<Rightarrow>
          if strip raw = [] then []
          else let parts = map (\<lambda>p. lower (strip p)) (split_comma raw);
                   labels = gt_collect_labels parts []
               in dedup_loop labels {} []
      | _ \<Rightarrow> [])"

section \<open>The classification client\<close>

text \<open>
  The remote call \<^verbatim>\<open>get_client().chat.completions.create(...)\<close> either returns a
  response, of which the script reads the \<^verbatim>\<open>message.content\<close> of each choice (a string
  or \<^verbatim>\<open>None\<close>), or raises. The exception classes are those the handlers of
  \<open>ask_llm\<close> tell apart: the two retried API errors, \<^verbatim>\<open>BadRequestError\<close>, any other
  \<^verbatim>\<open>APIError\<close> (with the name of its class), and any other exception. Each carries
  its message \<^verbatim>\<open>str(e)\<close>.
\<close>

datatype exn = RateLimitError string | InternalServerError string | BadRequestError string
  | APIError string string | OtherException string

datatype api_outcome = Returns "string option list" | Raises exn

text \<open>
  What a call does besides returning is recorded as a trace: the attempts made and the
  delays slept, in order. Delays are Python floats; their type is a parameter \<open>'f\<close>,
  with the reading of a decimal literal and the float multiplication.
\<close>

datatype 'f event = Call nat | Sleep 'f

record 'f float_ops =
  float_lit :: "int \<Rightarrow> nat \<Rightarrow> 'f"
  fmul :: "'f \<Rightarrow> 'f \<Rightarrow> 'f"

definition MAX_RETRIES :: nat where
  "MAX_RETRIES = 4"

text \<open>\<^verbatim>\<open>SLEEP_BACKOFF = 2.0\<close> and the growth factor \<^verbatim>\<open>1.7\<close>: the literal
  \<open>float_lit m e\<close> reads the decimal \<open>m / 10^e\<close>.\<close>

definition SLEEP_BACKOFF :: "'f float_ops \<Rightarrow> 'f" where
  "SLEEP_BACKOFF fl = float_lit fl 20 1"

definition BACKOFF_FACTOR :: "'f float_ops \<Rightarrow> 'f" where
  "BACKOFF_FACTOR fl = float_lit fl 17 1"

text \<open>Truth value of an optional string, and \<^verbatim>\<open>a or b\<close> on optional strings.\<close>

definition truthy :: "string option \<Rightarrow> bool" where
  "truthy x = (case x of None \<Rightarrow> False | Some s \<Rightarrow> s \<noteq> [])"

definition py_or :: "string option \<Rightarrow> string option \<Rightarrow> string option" where
  "py_or a b = (if truthy a then a else b)"

text \<open>The body of the \<^verbatim>\<open>try\<close> after a response has arrived.\<close>

definition first_content :: "string option list \<Rightarrow> string option" where
  "first_content choices = (case choices of [] \<Rightarrow> Some [] | c # _ \<Rightarrow> c)"

definition answer_of_content :: "string option \<Rightarrow> string option \<times> string option" where
  "answer_of_content content =
     (let xml0 = extract_xml_answer content;
          xml1 = py_or (sanitize_xml xml0) (sanitize_xml content)
      in if \<not> truthy xml1 then (None, Some ''No valid <xml>...</xml> returned.'')
         else (xml1, None))"

text \<open>
  The loop \<^verbatim>\<open>for attempt in range(1, MAX_RETRIES + 1)\<close> of \<open>ask_llm\<close>, over the
  attempts still to make. \<open>api attempt\<close> is what the remote call of that attempt does.
  The result \<open>None\<close> is the loop running out without a \<^verbatim>\<open>return\<close>.
\<close>

fun ask_llm_loop ::
  "'f float_ops \<Rightarrow> (nat \<Rightarrow> api_outcome) \<Rightarrow> nat list \<Rightarrow> 'f \<Rightarrow> 'f event list
     \<Rightarrow> (string option \<times> string option) option \<times> 'f event list" where
  "ask_llm_loop fl api [] backoff tr = (None, tr)"
| "ask_llm_loop fl api (attempt # rest) backoff tr =
     (case api attempt of
        Returns choices \<Rightarrow> (Some (answer_of_content (first_content choices)), tr @ [Call attempt])
      | Raises (RateLimitError m) \<Rightarrow>
          if attempt = MAX_RETRIES
          then (Some (None, Some (''RateLimitError: '' @ m)), tr @ [Call attempt])
          else ask_llm_loop fl api rest (fmul fl backoff (BACKOFF_FACTOR fl))
                 (tr @ [Call attempt, Sleep backoff])
      | Raises (InternalServerError m) \<Rightarrow>
          if attempt = MAX_RETRIES
          then (Some (None, Some (''InternalServerError: '' @ m)), tr @ [Call attempt])
          else ask_llm_loop fl api rest (fmul fl backoff (BACKOFF_FACTOR fl))
                 (tr @ [Call attempt, Sleep backoff])
      | Raises (BadRequestError m) \<Rightarrow>
          (Some (None, Some (''BadRequestError: '' @ m)), tr @ [Call attempt])
      | Raises (APIError name m) \<Rightarrow>
          (Some (None, Some (name @ '': '' @ m)), tr @ [Call attempt])
      | Raises (OtherException m) \<Rightarrow>
          if attempt = MAX_RETRIES
          then (Some (None, Some (''UnexpectedError: '' @ m)), tr @ [Call attempt])
          else ask_llm_loop fl api rest (fmul fl backoff (BACKOFF_FACTOR fl))
                 (tr @ [Call attempt, Sleep backoff]))"

definition ask_llm ::
  "'f float_ops \<Rightarrow> (nat \<Rightarrow> api_outcome)
     \<Rightarrow> (string option \<times> string option) option \<times> 'f event list" where
  "ask_llm fl api = ask_llm_loop fl api [1..<MAX_RETRIES + 1] (SLEEP_BACKOFF fl) []"

record result =
  idx :: nat
  xml :: string
  pred_labels :: "string list"
  error :: "string option"
  comment_length :: nat

text \<open>
  \<open>classify_record\<close>. \<^verbatim>\<open>list(set(pred_labels))\<close> is a duplicate-free list in an
  order Python leaves open; every reader turns it back into a set, and the model takes
  the order of \<open>remdups\<close>. The left result is an exception leaving the function: the
  unpacking of \<^verbatim>\<open>None\<close>, were \<open>ask_llm\<close> to run out of its loop.
\<close>

definition classify_record ::
  "'f float_ops \<Rightarrow> (nat \<Rightarrow> api_outcome) \<Rightarrow> nat \<times> pyrecord
     \<Rightarrow> (exn + result) \<times> 'f event list" where
  "classify_record fl api idx_and_rec =
     (let i = fst idx_and_rec; rec = snd idx_and_rec;
          comment = get_or_empty rec ''comments'';
          len = (case comment of JStr c \<Rightarrow> length c | _ \<Rightarrow> 0)
      in case (case comment of JStr c \<Rightarrow> if strip c = [] then None else Some c | _ \<Rightarrow> None) of
           None \<Rightarrow>
             (Inr \<lparr>idx = i, xml = ''<xml>none</xml>'', pred_labels = remdups [],
                   error = Some ''Missing or empty 'comments'.'', comment_length = len\<rparr>, [])
         | Some c \<Rightarrow>
             (case ask_llm fl api of
                (None, tr) \<Rightarrow>
                  (Inl (OtherException ''cannot unpack non-iterable NoneType object''), tr)
              | (Some (x, err), tr) \<Rightarrow>
                  (let labels = (if truthy x then parse_labels_from_xml (the x) else [])
                   in (Inr \<lparr>idx = i, xml = (case x of None \<Rightarrow> [] | Some t \<Rightarrow> t),
                             pred_labels = remdups labels, error = err,
                             comment_length = len\<rparr>, tr))))"

section \<open>Metrics\<close>

text \<open>A \<^verbatim>\<open>Counter\<close>: a missing key reads as zero, \<^verbatim>\<open>c[l] += 1\<close> stores the successor.\<close>

type_synonym counter = "string \<rightharpoonup> nat"

definition cnt :: "counter \<Rightarrow> string \<Rightarrow> nat" where
  "cnt c l = (case c l of None \<Rightarrow> 0 | Some n \<Rightarrow> n)"

definition incr :: "string \<Rightarrow> counter \<Rightarrow> counter" where
  "incr l c = c(l \<mapsto> cnt c l + 1)"

text \<open>A loop \<^verbatim>\<open>for l in set(xs)\<close> visits each element once, in an order Python leaves
  open; the model visits them in the order of \<open>remdups xs\<close>.\<close>

definition iter_set :: "string list \<Rightarrow> string list" where
  "iter_set xs = remdups xs"

definition COUNT_NONE_AS_HIT :: bool where
  "COUNT_NONE_AS_HIT = True"

record live_metrics =
  sem_num_done :: nat
  sem_num_exact :: nat
  sem_num_hit_incl_none :: nat
  sem_pred_label_freq :: counter

definition live_init :: live_metrics where
  "live_init = \<lparr>sem_num_done = 0, sem_num_exact = 0, sem_num_hit_incl_none = 0,
                 sem_pred_label_freq = Map.empty\<rparr>"

definition bump :: "bool \<Rightarrow> nat \<Rightarrow> nat" where
  "bump b n = (if b then n + 1 else n)"

text \<open>The block under the lock, for the completed result \<open>r\<close> of the record \<open>rec\<close>.\<close>

definition live_update :: "pyrecord \<Rightarrow> result \<Rightarrow> live_metrics \<Rightarrow> live_metrics" where
  "live_update rec r m =
     (let pred_set = set (pred_labels r);
          gt_set = set (parse_ground_truth_labels rec);
          inter = pred_set \<inter> gt_set;
          hit_now = (inter \<noteq> {} \<or> (COUNT_NONE_AS_HIT \<and> pred_set = {} \<and> gt_set = {}))
      in \<lparr>sem_num_done = sem_num_done m + 1,
          sem_num_exact = bump (pred_set = gt_set) (sem_num_exact m),
          sem_num_hit_incl_none = bump hit_now (sem_num_hit_incl_none m),
          sem_pred_label_freq = fold incr (iter_set (pred_labels r)) (sem_pred_label_freq m)\<rparr>)"

record row =
  row_rec :: pyrecord
  row_xml :: string
  row_pred_labels :: "string list"
  row_gt_labels :: "string list"
  row_error :: "string option"

record final_metrics =
  num_done :: nat
  num_exact :: nat
  num_hit_incl_none :: nat
  num_hit_nonempty :: nat
  num_any_pred :: nat
  num_any_gt :: nat
  num_false_pos_records :: nat
  num_false_neg_records :: nat
  pred_label_freq :: counter
  gt_label_freq :: counter
  tp_label :: counter
  fp_label :: counter
  fn_label :: counter
  enriched :: "row list"

definition final_init :: final_metrics where
  "final_init = \<lparr>num_done = 0, num_exact = 0, num_hit_incl_none = 0, num_hit_nonempty = 0,
                  num_any_pred = 0, num_any_gt = 0, num_false_pos_records = 0,
                  num_false_neg_records = 0, pred_label_freq = Map.empty,
                  gt_label_freq = Map.empty, tp_label = Map.empty, fp_label = Map.empty,
                  fn_label = Map.empty, enriched = []\<rparr>"

text \<open>The body of the final loop, for the record \<open>rec\<close> and its stored result \<open>r\<close>
  (\<^verbatim>\<open>SHOW_COMMENTS\<close> is true, so the row keeps its fields).\<close>

definition final_update :: "pyrecord \<Rightarrow> result \<Rightarrow> final_metrics \<Rightarrow> final_metrics" where
  "final_update rec r m =
     (let gt_labels = parse_ground_truth_labels rec;
          pred_set = set (pred_labels r);
          gt_set = set gt_labels;
          inter = pred_set \<inter> gt_set;
          hit_now = (inter \<noteq> {} \<or> (COUNT_NONE_AS_HIT \<and> pred_set = {} \<and> gt_set = {}))
      in \<lparr>num_done = num_done m + 1,
          num_exact = bump (pred_set = gt_set) (num_exact m),
          num_hit_incl_none = bump hit_now (num_hit_incl_none m),
          num_hit_nonempty = bump (inter \<noteq> {}) (num_hit_nonempty m),
          num_any_pred = bump (pred_set \<noteq> {}) (num_any_pred m),
          num_any_gt = bump (gt_set \<noteq> {}) (num_any_gt m),
          num_false_pos_records = bump (pred_set \<noteq> {} \<and> gt_set = {}) (num_false_pos_records m),
          num_false_neg_records = bump (gt_set \<noteq> {} \<and> pred_set = {}) (num_false_neg_records m),
          pred_label_freq = fold incr (iter_set (pred_labels r)) (pred_label_freq m),
          gt_label_freq = fold incr (iter_set gt_labels) (gt_label_freq m),
          tp_label = fold incr (filter (\<lambda>l. l \<in> gt_set) (iter_set (pred_labels r))) (tp_label m),
          fp_label = fold incr (filter (\<lambda>l. l \<notin> gt_set) (iter_set (pred_labels r))) (fp_label m),
          fn_label = fold incr (filter (\<lambda>l. l \<notin> pred_set) (iter_set gt_labels)) (fn_label m),
          enriched = enriched m @
            [\<lparr>row_rec = rec, row_xml = xml r, row_pred_labels = iter_set (pred_labels r),
              row_gt_labels = iter_set gt_labels, row_error = error r\<rparr>]\<rparr>)"

datatype failure = SystemExit string | TypeError string | IndexError string

text \<open>\<^verbatim>\<open>for i, rec in enumerate(records): r = results[i]; ...\<close>: an index beyond the
  list raises, and so does reading a field of a slot that still holds \<^verbatim>\<open>None\<close>.\<close>

fun final_loop ::
  "(nat \<times> pyrecord) list \<Rightarrow> result option list \<Rightarrow> final_metrics \<Rightarrow> failure + final_metrics" where
  "final_loop [] results m = Inr m"
| "final_loop ((i, rec) # rest) results m =
     (if i < length results
      then (case results ! i of
              None \<Rightarrow> Inl (TypeError '''NoneType' object is not subscriptable'')
            | Some r \<Rightarrow> final_loop rest results (final_update rec r m))
      else Inl (IndexError ''list index out of range''))"

definition final_pass :: "pyrecord list \<Rightarrow> result option list \<Rightarrow> failure + final_metrics" where
  "final_pass records results = final_loop (enumerate 0 records) results final_init"

section \<open>The concurrent dispatcher\<close>

text \<open>
  The outcome of the future of task \<open>i\<close>: what \<open>classify_record\<close> returns or raises,
  \<open>world i\<close> being the behaviour of the remote service towards that task.
\<close>

definition future_outcome ::
  "'f float_ops \<Rightarrow> (nat \<Rightarrow> nat \<Rightarrow> api_outcome) \<Rightarrow> pyrecord list \<Rightarrow> nat \<Rightarrow> exn + result" where
  "future_outcome fl world records i = fst (classify_record fl (world i) (i, records ! i))"

definition exn_str :: "exn \<Rightarrow> string" where
  "exn_str e = (case e of RateLimitError m \<Rightarrow> m | InternalServerError m \<Rightarrow> m
                | BadRequestError m \<Rightarrow> m | APIError name m \<Rightarrow> m | OtherException m \<Rightarrow> m)"

text \<open>\<^verbatim>\<open>try: r = fut.result()  except Exception as e: r = {...}\<close>.\<close>

definition future_result :: "nat \<Rightarrow> exn + result \<Rightarrow> result" where
  "future_result i outcome =
     (case outcome of
        Inr r \<Rightarrow> r
      | Inl e \<Rightarrow> \<lparr>idx = i, xml = ''<xml>none</xml>'', pred_labels = [],
                  error = Some (''WorkerError: '' @ exn_str e), comment_length = 0\<rparr>)"

text \<open>
  The body of the loop over \<^verbatim>\<open>as_completed(fut_to_idx)\<close> for the future of task
  \<open>i\<close>: the slot \<open>i\<close> of \<open>results\<close> is written and the live metrics are updated.
  \<open>i\<close> is a value of \<^verbatim>\<open>fut_to_idx\<close>, a position of \<open>records\<close>.
\<close>

definition loop_body ::
  "pyrecord list \<Rightarrow> (nat \<Rightarrow> exn + result) \<Rightarrow> nat
     \<Rightarrow> result option list \<times> live_metrics \<Rightarrow> result option list \<times> live_metrics" where
  "loop_body records fut i st =
     (let r = future_result i (fut i)
      in ((fst st)[i := Some r], live_update (records ! i) r (snd st)))"

text \<open>The dispatch loop when the futures complete in the order \<open>order\<close>.\<close>

definition live_pass ::
  "pyrecord list \<Rightarrow> (nat \<Rightarrow> exn + result) \<Rightarrow> nat list \<Rightarrow> result option list \<times> live_metrics" where
  "live_pass records fut order =
     fold (loop_body records fut) order (replicate (length records) None, live_init)"

text \<open>
  The executor with \<open>W\<close> worker threads as a transition system. A task is queued at
  submission, taken by a free worker, finished by it, and then handed to the main thread
  by \<^verbatim>\<open>as_completed\<close>, which runs the loop body. Any interleaving is a run.
\<close>

record dispatch_state =
  queued :: "nat list"
  running :: "nat list"
  finished :: "nat list"
  store :: "result option list \<times> live_metrics"

inductive pool_step ::
  "nat \<Rightarrow> pyrecord list \<Rightarrow> (nat \<Rightarrow> exn + result) \<Rightarrow> dispatch_state \<Rightarrow> dispatch_state \<Rightarrow> bool"
  for W records fut where
  start: "queued s = i # q \<Longrightarrow> length (running s) < W \<Longrightarrow>
          pool_step W records fut s (s\<lparr>queued := q, running := running s @ [i]\<rparr>)"
| finish: "i \<in> set (running s) \<Longrightarrow>
          pool_step W records fut s
            (s\<lparr>running := remove1 i (running s), finished := finished s @ [i]\<rparr>)"
| yield: "i \<in> set (finished s) \<Longrightarrow>
          pool_step W records fut s
            (s\<lparr>finished := remove1 i (finished s),
               store := loop_body records fut i (store s)\<rparr>)"

text \<open>The script stops before dispatching when there are no records; otherwise every
  record is submitted and the result slots hold \<^verbatim>\<open>None\<close>.\<close>

definition dispatch_init :: "pyrecord list \<Rightarrow> failure + dispatch_state" where
  "dispatch_init records =
     (if records = [] then Inl (SystemExit ''No records found in input.'')
      else Inr \<lparr>queued = [0..<length records], running = [], finished = [],
                store = (replicate (length records) None, live_init)\<rparr>)"

definition all_done :: "dispatch_state \<Rightarrow> bool" where
  "all_done s = (queued s = [] \<and> running s = [] \<and> finished s = [])"

section \<open>The normalizers in the words of the specification\<close>

text \<open>
  Step 3 of the Response Normalizer, for one comma-separated token: lowercase, repair
  the alternate prefix form, remove the characters that are neither letters nor
  underscores.
\<close>

definition normalized_token :: "string \<Rightarrow> string" where
  "normalized_token t = filter label_char (replace_ni (lower t))"

text \<open>De-duplication that keeps the first occurrence of each element, in order.\<close>

fun dedup_first :: "'a list \<Rightarrow> 'a list" where
  "dedup_first [] = []"
| "dedup_first (x # xs) = x # removeAll x (dedup_first xs)"

text \<open>Steps 3 to 5 on an inner content: the sentinel anywhere wins; otherwise the
  taxonomy members among the normalized tokens, first occurrences only.\<close>

definition normalizer_steps_3_5 :: "string \<Rightarrow> string list" where
  "normalizer_steps_3_5 content =
     (let tokens = map normalized_token (split_comma content)
      in if ''none'' \<in> set tokens then []
         else dedup_first (filter (\<lambda>t. t \<in> ALLOWED_LABELS \<and> t \<noteq> ''none'') tokens))"

section \<open>Auxiliary notions for the proofs\<close>

text \<open>What the label parsers see of a text: its lowercase form, reduced to the commas
  and the characters a label can have.\<close>

definition canon :: "string \<Rightarrow> string" where
  "canon s = filter (\<lambda>c. c = CHR '','' \<or> label_char c) (lower s)"

text \<open>Whether a pattern matches, case-insensitively, somewhere in a text.\<close>

fun contains_ci :: "string \<Rightarrow> string \<Rightarrow> bool" where
  "contains_ci p [] = ci_match p []"
| "contains_ci p (c # cs) = (ci_match p (c # cs) \<or> contains_ci p cs)"

section \<open>The retry protocol in the words of the specification\<close>

text \<open>The retryable failure classes: rate limiting, a transient server-side fault, a
  generic unexpected fault. A response and the other API errors are not retryable
  failures.\<close>

fun retryable :: "api_outcome \<Rightarrow> bool" where
  "retryable (Raises (RateLimitError m)) = True"
| "retryable (Raises (InternalServerError m)) = True"
| "retryable (Raises (OtherException m)) = True"
| "retryable (Raises (BadRequestError m)) = False"
| "retryable (Raises (APIError name m)) = False"
| "retryable (Returns choices) = False"

text \<open>The error text recorded for a failure, and the answer with which a call ends at
  an attempt of the given outcome.\<close>

fun reported_error :: "exn \<Rightarrow> string" where
  "reported_error (RateLimitError m) = ''RateLimitError: '' @ m"
| "reported_error (InternalServerError m) = ''InternalServerError: '' @ m"
| "reported_error (BadRequestError m) = ''BadRequestError: '' @ m"
| "reported_error (APIError name m) = name @ '': '' @ m"
| "reported_error (OtherException m) = ''UnexpectedError: '' @ m"

fun final_answer :: "api_outcome \<Rightarrow> string option \<times> string option" where
  "final_answer (Returns choices) = answer_of_content (first_content choices)"
| "final_answer (Raises e) = (None, Some (reported_error e))"

text \<open>The delay before the retry that follows the \<open>j\<close>-th failure (counting from 0):
  the start value multiplied \<open>j\<close> times by the growth factor.\<close>

definition backoff_delay :: "'f float_ops \<Rightarrow> nat \<Rightarrow> 'f" where
  "backoff_delay fl j = ((\<lambda>b. fmul fl b (BACKOFF_FACTOR fl)) ^^ j) (SLEEP_BACKOFF fl)"

text \<open>A call that ends at attempt \<open>k\<close>: attempts 1 to \<open>k\<close>, a delay after each but the
  last.\<close>

definition expected_trace :: "'f float_ops \<Rightarrow> nat \<Rightarrow> 'f event list" where
  "expected_trace fl k =
     concat (map (\<lambda>j. [Call j, Sleep (backoff_delay fl (j - 1))]) [1..<k]) @ [Call k]"

text \<open>The attempt at which a call ends: every earlier attempt failed retryably, and this
  one either is not a retryable failure or is the last one allowed.\<close>

definition ends_at :: "(nat \<Rightarrow> api_outcome) \<Rightarrow> nat \<Rightarrow> bool" where
  "ends_at api k =
     (1 \<le> k \<and> k \<le> MAX_RETRIES \<and> (\<forall>j \<in> {1..<k}. retryable (api j))
      \<and> (retryable (api k) \<longrightarrow> k = MAX_RETRIES))"

text \<open>The labels \<open>classify_record\<close> takes from a response content: the body of the
  \<^verbatim>\<open>try\<close> in \<open>ask_llm\<close>, then \<^verbatim>\<open>parse_labels_from_xml(xml) if xml else []\<close>.\<close>

definition response_labels :: "string option \<Rightarrow> string list" where
  "response_labels content =
     (let x = fst (answer_of_content content)
      in if truthy x then parse_labels_from_xml (the x) else [])"

section \<open>Instances for evaluation\<close>

text \<open>Float operations that do not round, and a remote service that answers the
  attempts 1, 2, ... of a call from a script.\<close>

definition exact_floats :: "rat float_ops" where
  "exact_floats = \<lparr>float_lit = (\<lambda>m e. of_int m / 10 ^ e), fmul = (*)\<rparr>"

definition api_of_list :: "api_outcome list \<Rightarrow> nat \<Rightarrow> api_outcome" where
  "api_of_list script k =
     (if 1 \<le> k \<and> k \<le> length script then script ! (k - 1)
      else Raises (OtherException ''no answer''))"

section \<open>Counting records\<close>

text \<open>The predicted and the ground-truth label set of the record at a position, and the
  number of positions below \<open>n\<close> with a property.\<close>

definition predicted_set :: "result option list \<Rightarrow> nat \<Rightarrow> string set" where
  "predicted_set results i = (case results ! i of None \<Rightarrow> {} | Some r \<Rightarrow> set (pred_labels r))"

definition ground_truth_set :: "pyrecord list \<Rightarrow> nat \<Rightarrow> string set" where
  "ground_truth_set records i = set (parse_ground_truth_labels (records ! i))"

definition count_records :: "nat \<Rightarrow> (nat \<Rightarrow> bool) \<Rightarrow> nat" where
  "count_records n P = length (filter P [0..<n])"

text \<open>The part of the final metrics that the live pass keeps as well.\<close>

definition live_part :: "final_metrics \<Rightarrow> live_metrics" where
  "live_part m = \<lparr>sem_num_done = num_done m, sem_num_exact = num_exact m,
                   sem_num_hit_incl_none = num_hit_incl_none m,
                   sem_pred_label_freq = pred_label_freq m\<rparr>"

text \<open>A remote service that follows the same script for every task.\<close>

definition same_world :: "api_outcome list \<Rightarrow> nat \<Rightarrow> nat \<Rightarrow> api_outcome" where
  "same_world script i = api_of_list script"

section \<open>Facts about the string primitives\<close>

lemma rstrip_decomp: "rstrip s @ rev (takeWhile is_space (rev s)) = s"
proof -
  have "rev (takeWhile is_space (rev s) @ dropWhile is_space (rev s)) = s"
    by (simp only: takeWhile_dropWhile_id rev_rev_ident)
  then show ?thesis by (simp only: rstrip_def rev_append)
qed

lemma rstrip_last: "rstrip s \<noteq> [] \<Longrightarrow> \<not> is_space (last (rstrip s))"
proof -
  assume "rstrip s \<noteq> []"
  then have ne: "dropWhile is_space (rev s) \<noteq> []" by (simp add: rstrip_def)
  then have "\<not> is_space (hd (dropWhile is_space (rev s)))" by (rule hd_dropWhile)
  with ne show ?thesis by (simp add: rstrip_def last_rev)
qed

lemma lstrip_hd: "lstrip s \<noteq> [] \<Longrightarrow> \<not> is_space (hd (lstrip s))"
  unfolding lstrip_def by (rule hd_dropWhile)

lemma rstrip_hd: "rstrip s \<noteq> [] \<Longrightarrow> hd (rstrip s) = hd s"
proof -
  assume ne: "rstrip s \<noteq> []"
  have "hd (rstrip s @ rev (takeWhile is_space (rev s))) = hd (rstrip s)"
    using ne by (rule hd_append2)
  then show ?thesis by (simp only: rstrip_decomp)
qed

lemma strip_hd: "strip s \<noteq> [] \<Longrightarrow> \<not> is_space (hd (strip s))"
proof -
  assume ne: "strip s \<noteq> []"
  then have r: "rstrip (lstrip s) \<noteq> []" by (simp add: strip_def)
  have "lstrip s \<noteq> []"
  proof
    assume "lstrip s = []"
    then have "rstrip (lstrip s) = []" by (simp add: rstrip_def)
    with r show False by simp
  qed
  then have "\<not> is_space (hd (lstrip s))" by (rule lstrip_hd)
  then show ?thesis using rstrip_hd[OF r] by (simp add: strip_def)
qed

lemma strip_last: "strip s \<noteq> [] \<Longrightarrow> \<not> is_space (last (strip s))"
  unfolding strip_def by (rule rstrip_last)

lemma lstrip_id: "s = [] \<or> \<not> is_space (hd s) \<Longrightarrow> lstrip s = s"
  unfolding lstrip_def by (cases s) auto

lemma rstrip_id: "s = [] \<or> \<not> is_space (last s) \<Longrightarrow> rstrip s = s"
  unfolding rstrip_def by (cases s rule: rev_cases) auto

lemma strip_id: "s = [] \<or> (\<not> is_space (hd s) \<and> \<not> is_space (last s)) \<Longrightarrow> strip s = s"
  unfolding strip_def by (auto simp: lstrip_id rstrip_id)

lemma strip_strip: "strip (strip s) = strip s"
proof (rule strip_id)
  show "strip s = [] \<or> \<not> is_space (hd (strip s)) \<and> \<not> is_space (last (strip s))"
    using strip_hd[of s] strip_last[of s] by blast
qed

lemma lower_append: "lower (a @ b) = lower a @ lower b"
  by (simp add: lower_def)

lemma lower_open: "lower ''<xml>'' = ''<xml>''"
  by code_simp

lemma lower_close: "lower ''</xml>'' = ''</xml>''"
  by code_simp

lemma not_space_lt: "\<not> is_space CHR ''<''"
  by code_simp

lemma not_space_gt: "\<not> is_space CHR ''>''"
  by code_simp

lemma startswith_append: "startswith (p @ r) p"
  by (simp add: startswith_def)

lemma endswith_append: "endswith (r @ p) p"
  by (simp add: endswith_def)

lemma wrapped_strip: "strip (''<xml>'' @ inner @ ''</xml>'') = ''<xml>'' @ inner @ ''</xml>''"
  by (rule strip_id) (simp add: not_space_lt not_space_gt)

lemma wrapped_lower:
  "lower (''<xml>'' @ inner @ ''</xml>'') = ''<xml>'' @ lower inner @ ''</xml>''"
  by (simp only: lower_append lower_open lower_close)

lemma wrapped_startswith: "startswith (lower (''<xml>'' @ inner @ ''</xml>'')) ''<xml>''"
  unfolding wrapped_lower by (rule startswith_append)

lemma wrapped_endswith: "endswith (lower (''<xml>'' @ inner @ ''</xml>'')) ''</xml>''"
proof -
  have "endswith ((''<xml>'' @ lower inner) @ ''</xml>'') ''</xml>''"
    by (rule endswith_append)
  then show ?thesis by (simp only: wrapped_lower append_assoc)
qed

section \<open>The answer sanitizer\<close>

lemma sanitize_wellformed:
  assumes "startswith (lower (strip t)) ''<xml>''" "endswith (lower (strip t)) ''</xml>''"
  shows "sanitize_xml (Some t) = Some (strip t)"
proof -
  have "strip t \<noteq> []" using assms(1) by (auto simp: startswith_def lower_def)
  then have "t \<noteq> []" by (auto simp: strip_def lstrip_def rstrip_def)
  then show ?thesis using assms by (simp add: sanitize_xml_def Let_def)
qed

text \<open>
  Claim C10. \<open>sanitize_xml\<close> is idempotent: whenever it succeeds on an input (a string
  or \<^verbatim>\<open>None\<close>) with output \<open>y\<close>, it returns \<open>y\<close> unchanged on \<open>y\<close>. On a string that,
  stripped of outer whitespace, starts with the opening and ends with the closing tag
  (in any case), it returns that stripped string: the salvage does not rewrite a
  well-formed answer.
\<close>

theorem sanitize_xml_idempotent:
  "(\<forall>x y. sanitize_xml x = Some y \<longrightarrow> sanitize_xml (Some y) = Some y) \<and>
   (\<forall>t. startswith (lower (strip t)) ''<xml>'' \<and> endswith (lower (strip t)) ''</xml>''
        \<longrightarrow> sanitize_xml (Some t) = Some (strip t))"
proof (intro conjI allI impI)
  fix x y assume h: "sanitize_xml x = Some y"
  then obtain t where x: "x = Some t" and t: "t \<noteq> []"
    by (cases x) (auto simp: sanitize_xml_def split: if_splits)
  show "sanitize_xml (Some y) = Some y"
  proof (cases "startswith (lower (strip t)) ''<xml>'' \<and> endswith (lower (strip t)) ''</xml>''")
    case True
    with h x t have y: "y = strip t" by (simp add: sanitize_xml_def Let_def)
    have "sanitize_xml (Some y) = Some (strip y)"
      using True unfolding y by (intro sanitize_wellformed) (simp_all only: strip_strip)
    then show ?thesis by (simp only: y strip_strip)
  next
    case False
    with h x t have y: "y = ''<xml>'' @ salvage_inner (strip t) @ ''</xml>''"
      by (simp add: sanitize_xml_def Let_def split: if_splits)
    have "sanitize_xml (Some y) = Some (strip y)"
      unfolding y
      by (intro sanitize_wellformed)
         (simp_all only: wrapped_strip wrapped_startswith wrapped_endswith)
    then show ?thesis by (simp only: y wrapped_strip)
  qed
next
  fix t assume "startswith (lower (strip t)) ''<xml>'' \<and> endswith (lower (strip t)) ''</xml>''"
  then show "sanitize_xml (Some t) = Some (strip t)" by (simp add: sanitize_wellformed)
qed

theorem sanitize_xml_idempotent_witness:
  "sanitize_xml (Some '' `pii` '') = Some ''<xml>pii</xml>'' \<and>
   sanitize_xml (Some ''<xml>pii</xml>'') = Some ''<xml>pii</xml>'' \<and>
   sanitize_xml (Some '' <XML>pii</xml> '') = Some ''<XML>pii</xml>''"
proof -
  have a: "sanitize_xml (Some '' `pii` '') = Some ''<xml>pii</xml>''" by code_simp
  have b: "startswith (lower (strip '' <XML>pii</xml> '')) ''<xml>'' \<and>
           endswith (lower (strip '' <XML>pii</xml> '')) ''</xml>''" by code_simp
  have c: "strip '' <XML>pii</xml> '' = ''<XML>pii</xml>''" by code_simp
  have i1: "sanitize_xml (Some ''<xml>pii</xml>'') = Some ''<xml>pii</xml>''"
    using sanitize_xml_idempotent a by blast
  have i2: "sanitize_xml (Some '' <XML>pii</xml> '') = Some (strip '' <XML>pii</xml> '')"
    using sanitize_xml_idempotent b by blast
  show ?thesis using a i1 i2 by (simp only: c simp_thms)
qed
section \<open>Characters\<close>

lemma of_char_lower:
  "(of_char (lower_char c) :: nat) =
     (if (65 \<le> (of_char c :: nat) \<and> (of_char c :: nat) \<le> 90)
         \<or> (192 \<le> (of_char c :: nat) \<and> (of_char c :: nat) \<le> 222 \<and> (of_char c :: nat) \<noteq> 215)
      then of_char c + 32 else of_char c)"
  by (auto simp: lower_char_def Let_def)

lemma char_eq_nat: "(c = d) = ((of_char c :: nat) = of_char d)"
  by (simp add: of_char_eq_iff)

lemma lower_char_comma: "(lower_char c = CHR '','') = (c = CHR '','')"
  by (auto simp: char_eq_nat of_char_lower)

lemma is_space_nat:
  "is_space c = ((of_char c :: nat) \<in> {9, 10, 11, 12, 13, 28, 29, 30, 31, 32, 133, 160})"
  by (simp add: is_space_def char_eq_nat)

lemma space_not_label: "is_space c \<Longrightarrow> \<not> label_char (lower_char c)"
  by (auto simp: is_space_nat label_char_def Let_def of_char_lower char_eq_nat)

lemma space_not_comma: "is_space c \<Longrightarrow> c \<noteq> CHR '',''"
  by (auto simp: is_space_nat char_eq_nat)

section \<open>Splitting and normalising tokens\<close>

lemma label_char_lit20:
  "filter label_char ''network_identifiers:'' = ''network_identifiers''"
  by code_simp

lemma label_char_lit19:
  "filter label_char ''network_identifiers'' = ''network_identifiers''"
  by code_simp

lemma len_lit20: "length ''network_identifiers:'' = 20"
  by simp

lemma filter_replace_ni: "filter label_char (replace_ni s) = filter label_char s"
proof (induction s rule: replace_ni.induct)
  case 1
  show ?case by simp
next
  case (2 c cs)
  show ?case
  proof (cases "startswith (c # cs) ''network_identifiers:''")
    case True
    then have tk: "take 20 (c # cs) = ''network_identifiers:''"
      unfolding startswith_def len_lit20 .
    have split: "''network_identifiers:'' @ drop 20 (c # cs) = c # cs"
      using append_take_drop_id[of 20 "c # cs"] by (simp only: tk)
    have "filter label_char (replace_ni (c # cs))
            = filter label_char (''network_identifiers'' @ replace_ni (drop 20 (c # cs)))"
      using True by (simp only: replace_ni.simps if_True)
    also have "\<dots> = ''network_identifiers'' @ filter label_char (drop 20 (c # cs))"
      using 2(1)[OF True] by (simp only: filter_append label_char_lit19)
    also have "\<dots> = filter label_char (''network_identifiers:'' @ drop 20 (c # cs))"
      by (simp only: filter_append label_char_lit20)
    finally show ?thesis by (simp only: split)
  next
    case False
    then show ?thesis using 2(2) by simp
  qed
qed

lemma split_comma_ne: "split_comma s \<noteq> []"
  by (induction s) (auto split: list.splits)

lemma split_comma_lower: "split_comma (lower s) = map lower (split_comma s)"
proof (induction s)
  case Nil
  show ?case by (simp add: lower_def)
next
  case (Cons c cs)
  obtain p ps where sp: "split_comma cs = p # ps"
    using split_comma_ne[of cs] by (cases "split_comma cs") auto
  have IH: "split_comma (map lower_char cs) = map (map lower_char) (split_comma cs)"
    using Cons.IH by (simp add: lower_def)
  show ?case
    unfolding lower_def using IH sp by (simp add: lower_char_comma)
qed

lemma split_comma_filter:
  "map (filter label_char) (split_comma s)
     = split_comma (filter (\<lambda>c. c = CHR '','' \<or> label_char c) s)"
proof (induction s)
  case Nil
  show ?case by simp
next
  case (Cons c cs)
  obtain p ps where sp: "split_comma cs = p # ps"
    using split_comma_ne[of cs] by (cases "split_comma cs") auto
  obtain q qs where sq: "split_comma (filter (\<lambda>c. c = CHR '','' \<or> label_char c) cs) = q # qs"
    using split_comma_ne[of "filter (\<lambda>c. c = CHR '','' \<or> label_char c) cs"]
    by (cases "split_comma (filter (\<lambda>c. c = CHR '','' \<or> label_char c) cs)") auto
  from Cons.IH sp sq have hd: "filter label_char p = q" and tl: "map (filter label_char) ps = qs"
    by simp_all
  show ?case
  proof (cases "c = CHR '',''")
    case True
    then show ?thesis using Cons.IH by simp
  next
    case False
    then show ?thesis using sp sq hd tl by (cases "label_char c") simp_all
  qed
qed

lemma tokens_canon:
  "map (\<lambda>p. filter label_char (lower p)) (split_comma s) = split_comma (canon s)"
proof -
  have "map (\<lambda>p. filter label_char (lower p)) (split_comma s)
          = map (filter label_char) (map lower (split_comma s))"
    by simp
  also have "\<dots> = map (filter label_char) (split_comma (lower s))"
    by (simp only: split_comma_lower)
  also have "\<dots> = split_comma (canon s)"
    unfolding canon_def by (rule split_comma_filter)
  finally show ?thesis .
qed

lemma lstrip_decomp: "takeWhile is_space s @ lstrip s = s"
  by (simp add: lstrip_def)

lemma filter_strip:
  assumes "\<And>c. is_space c \<Longrightarrow> \<not> P c"
  shows "filter P (strip s) = filter P s"
proof -
  have a: "filter P (takeWhile is_space s) = []"
    using assms by (auto simp: filter_empty_conv dest: set_takeWhileD)
  have b: "filter P (rev (takeWhile is_space (rev (lstrip s)))) = []"
    using assms by (auto simp: filter_empty_conv dest: set_takeWhileD)
  have "filter P s = filter P (takeWhile is_space s @ lstrip s)"
    by (simp only: lstrip_decomp)
  also have "\<dots> = filter P (lstrip s)"
    using a by simp
  also have "\<dots> = filter P (rstrip (lstrip s) @ rev (takeWhile is_space (rev (lstrip s))))"
    by (simp only: rstrip_decomp)
  also have "\<dots> = filter P (strip s)"
    using b by (simp add: strip_def)
  finally show ?thesis by simp
qed

lemma lower_filter: "filter P (lower s) = lower (filter (\<lambda>c. P (lower_char c)) s)"
  by (simp add: lower_def filter_map comp_def)

lemma label_lower_strip: "filter label_char (lower (strip p)) = filter label_char (lower p)"
  unfolding lower_filter
  by (rule arg_cong[where f = lower], rule filter_strip) (rule space_not_label)

lemma canon_strip: "canon (strip s) = canon s"
  unfolding canon_def lower_filter
  by (rule arg_cong[where f = lower], rule filter_strip)
     (auto simp: lower_char_comma space_not_label space_not_comma)

lemma strip_empty_canon: "strip s = [] \<Longrightarrow> canon s = []"
proof -
  assume "strip s = []"
  then have "canon (strip s) = []" by (simp add: canon_def lower_def)
  then show ?thesis by (simp only: canon_strip)
qed

lemma parts_canon:
  "map (\<lambda>p0. filter label_char (replace_ni p0)) (map (\<lambda>p. lower (strip p)) (split_comma s))
     = split_comma (canon s)"
proof -
  have "map (\<lambda>p0. filter label_char (replace_ni p0)) (map (\<lambda>p. lower (strip p)) (split_comma s))
          = map (\<lambda>p. filter label_char (lower p)) (split_comma s)"
    by (simp add: filter_replace_ni label_lower_strip)
  then show ?thesis by (simp only: tokens_canon)
qed

lemma normalized_tokens_canon:
  "map normalized_token (split_comma s) = split_comma (canon s)"
proof -
  have "map normalized_token (split_comma s)
          = map (\<lambda>p. filter label_char (lower p)) (split_comma s)"
    by (simp add: normalized_token_def filter_replace_ni)
  then show ?thesis by (simp only: tokens_canon)
qed
section \<open>The loops of the label parsers\<close>

lemma collect_labels_eq:
  "collect_labels parts labels =
     (if ''none'' \<in> set (map (\<lambda>p0. filter label_char (replace_ni p0)) parts) then None
      else Some (labels @ filter (\<lambda>t. t \<in> ALLOWED_LABELS \<and> t \<noteq> ''none'')
                            (map (\<lambda>p0. filter label_char (replace_ni p0)) parts)))"
proof (induction parts arbitrary: labels)
  case Nil
  show ?case by simp
next
  case (Cons p0 parts)
  have e: "[] \<notin> ALLOWED_LABELS" by (simp add: ALLOWED_LABELS_def)
  show ?case
  proof (cases "filter label_char (replace_ni p0) = []")
    case True
    then show ?thesis using Cons.IH[of labels] e by (simp add: Let_def)
  next
    case ne: False
    show ?thesis
    proof (cases "filter label_char (replace_ni p0) = ''none''")
      case True
      then show ?thesis by (simp add: Let_def)
    next
      case False
      then show ?thesis
        using ne Cons.IH[of labels] Cons.IH[of "labels @ [filter label_char (replace_ni p0)]"]
        by (simp add: Let_def)
    qed
  qed
qed

lemma gt_collect_labels_eq:
  "gt_collect_labels parts labels =
     labels @ filter (\<lambda>t. t \<in> ALLOWED_LABELS \<and> t \<noteq> ''none'')
                     (map (\<lambda>p0. filter label_char (replace_ni p0)) parts)"
  by (induction parts arbitrary: labels) (simp_all add: Let_def)

lemma dedup_loop_eq:
  "dedup_loop ls seen out = out @ filter (\<lambda>l. l \<notin> seen) (dedup_first ls)"
proof (induction ls arbitrary: seen out)
  case Nil
  show ?case by simp
next
  case (Cons l ls)
  have r: "\<And>ys. filter (\<lambda>x. x \<notin> insert l seen) ys = filter (\<lambda>x. x \<notin> seen) (removeAll l ys)"
    by (simp add: removeAll_filter_not_eq) (metis (mono_tags, lifting) filter_cong)
  show ?case
  proof (cases "l \<in> seen")
    case True
    have "filter (\<lambda>x. x \<notin> seen) (removeAll l (dedup_first ls))
            = filter (\<lambda>x. x \<notin> seen) (dedup_first ls)"
      using True by (simp add: removeAll_filter_not_eq) (metis (mono_tags, lifting) filter_cong)
    then show ?thesis using True Cons.IH[of seen out] by simp
  next
    case False
    then show ?thesis using Cons.IH[of "insert l seen" "out @ [l]"] r by simp
  qed
qed

lemma dedup_loop_first: "dedup_loop ls {} [] = dedup_first ls"
  by (simp add: dedup_loop_eq)

section \<open>The Ground-Truth Normalizer\<close>

lemma parse_ground_truth_str:
  assumes "rec ''classification'' = Some (JStr raw)"
  shows "parse_ground_truth_labels rec =
           dedup_first (filter (\<lambda>t. t \<in> ALLOWED_LABELS \<and> t \<noteq> ''none'')
                               (split_comma (canon raw)))"
proof (cases "strip raw = []")
  case True
  then have "canon raw = []" by (rule strip_empty_canon)
  then show ?thesis
    using assms True
    by (simp add: parse_ground_truth_labels_def get_or_empty_def ALLOWED_LABELS_def)
next
  case False
  have "parse_ground_truth_labels rec =
          dedup_loop (gt_collect_labels (map (\<lambda>p. lower (strip p)) (split_comma raw)) []) {} []"
    using assms False by (simp add: parse_ground_truth_labels_def get_or_empty_def Let_def)
  then show ?thesis
    unfolding gt_collect_labels_eq parts_canon by (simp add: dedup_loop_first)
qed

lemma parse_ground_truth_absent:
  assumes "rec ''classification'' = None \<or>
           (\<exists>v. rec ''classification'' = Some v \<and> (\<forall>s. v \<noteq> JStr s))"
  shows "parse_ground_truth_labels rec = []"
proof -
  have e: "strip [] = []" by (simp add: strip_def lstrip_def rstrip_def)
  from assms show ?thesis
  proof
    assume "rec ''classification'' = None"
    then show ?thesis by (simp add: parse_ground_truth_labels_def get_or_empty_def e)
  next
    assume "\<exists>v. rec ''classification'' = Some v \<and> (\<forall>s. v \<noteq> JStr s)"
    then obtain v where v: "rec ''classification'' = Some v" "\<forall>s. v \<noteq> JStr s" by blast
    then show ?thesis
      by (cases v) (simp_all add: parse_ground_truth_labels_def get_or_empty_def)
  qed
qed

text \<open>
  Claim C5, as stated, fails: on the stored string \<^verbatim>\<open>none,pii\<close> the Ground-Truth
  Normalizer keeps \<^verbatim>\<open>pii\<close>, while steps 3 to 5 of the Response Normalizer give the
  empty list.
\<close>

theorem parse_ground_truth_labels_sentinel_counterexample:
  "parse_ground_truth_labels (dict_of_items [(''classification'', JStr ''none,pii'')]) = [''pii'']
   \<and> normalizer_steps_3_5 ''none,pii'' = []"
  by code_simp

text \<open>
  Claim C5, amended. For every stored taxonomy string, \<open>parse_ground_truth_labels\<close>
  returns the taxonomy members other than the sentinel among the tokens normalized as
  in step 3, without duplicates, in the order of their first occurrence; a sentinel
  token is dropped and does not empty the result. This is the result of steps 3 to 5
  whenever no normalized token is the sentinel. A missing or non-string field gives
  the empty list, not an error.
\<close>

theorem parse_ground_truth_labels_spec:
  "(rec ''classification'' = Some (JStr raw) \<longrightarrow>
      parse_ground_truth_labels rec =
        dedup_first (filter (\<lambda>t. t \<in> ALLOWED_LABELS \<and> t \<noteq> ''none'')
                            (map normalized_token (split_comma raw)))
      \<and> (''none'' \<notin> set (map normalized_token (split_comma raw)) \<longrightarrow>
           parse_ground_truth_labels rec = normalizer_steps_3_5 raw))
   \<and> (rec ''classification'' = None \<or>
        (\<exists>v. rec ''classification'' = Some v \<and> (\<forall>s. v \<noteq> JStr s)) \<longrightarrow>
      parse_ground_truth_labels rec = [])"
proof (intro conjI impI)
  assume h: "rec ''classification'' = Some (JStr raw)"
  show "parse_ground_truth_labels rec =
          dedup_first (filter (\<lambda>t. t \<in> ALLOWED_LABELS \<and> t \<noteq> ''none'')
                              (map normalized_token (split_comma raw)))"
    by (simp only: parse_ground_truth_str[of rec raw, OF h] normalized_tokens_canon)
next
  assume h: "rec ''classification'' = Some (JStr raw)"
    and n: "''none'' \<notin> set (map normalized_token (split_comma raw))"
  show "parse_ground_truth_labels rec = normalizer_steps_3_5 raw"
    using n unfolding parse_ground_truth_str[of rec raw, OF h] normalizer_steps_3_5_def
    by (simp add: Let_def normalized_tokens_canon)
next
  assume "rec ''classification'' = None \<or>
          (\<exists>v. rec ''classification'' = Some v \<and> (\<forall>s. v \<noteq> JStr s))"
  then show "parse_ground_truth_labels rec = []" by (rule parse_ground_truth_absent)
qed

theorem parse_ground_truth_labels_spec_witness:
  "parse_ground_truth_labels (dict_of_items [(''classification'', JStr ''PII, network_identifiers:, pii'')])
     = normalizer_steps_3_5 ''PII, network_identifiers:, pii''
   \<and> parse_ground_truth_labels (dict_of_items [(''classification'', JNum 3)]) = []
   \<and> parse_ground_truth_labels (dict_of_items []) = []"
proof -
  let ?r = "dict_of_items [(''classification'', JStr ''PII, network_identifiers:, pii'')]"
  have a: "?r ''classification'' = Some (JStr ''PII, network_identifiers:, pii'')"
    by (simp add: dict_of_items_def)
  have b: "''none'' \<notin> set (map normalized_token (split_comma ''PII, network_identifiers:, pii''))"
    by code_simp
  have c: "dict_of_items [(''classification'', JNum 3)] ''classification'' = Some (JNum 3)
           \<and> (\<forall>s. JNum 3 \<noteq> JStr s)"
    by (simp add: dict_of_items_def)
  have d: "dict_of_items [] ''classification'' = None"
    by (simp add: dict_of_items_def)
  have 1: "parse_ground_truth_labels ?r = normalizer_steps_3_5 ''PII, network_identifiers:, pii''"
    using parse_ground_truth_labels_spec[of ?r "''PII, network_identifiers:, pii''"] a b
    by blast
  have 2: "parse_ground_truth_labels (dict_of_items [(''classification'', JNum 3)]) = []"
    using parse_ground_truth_labels_spec[of "dict_of_items [(''classification'', JNum 3)]"] c
    by blast
  have 3: "parse_ground_truth_labels (dict_of_items []) = []"
    using parse_ground_truth_labels_spec[of "dict_of_items []"] d by blast
  from 1 2 3 show ?thesis by blast
qed
section \<open>The classification client: retries\<close>

lemma ask_llm_loop_final:
  assumes "\<not> retryable (api k) \<or> k = MAX_RETRIES"
  shows "ask_llm_loop fl api (k # rest) b tr = (Some (final_answer (api k)), tr @ [Call k])"
proof (cases "api k")
  case (Returns choices)
  then show ?thesis by simp
next
  case (Raises e)
  then show ?thesis using assms by (cases e) auto
qed

lemma ask_llm_loop_retry:
  assumes "retryable (api a)" "a \<noteq> MAX_RETRIES"
  shows "ask_llm_loop fl api (a # rest) b tr =
           ask_llm_loop fl api rest (fmul fl b (BACKOFF_FACTOR fl)) (tr @ [Call a, Sleep b])"
proof (cases "api a")
  case (Returns choices)
  then show ?thesis using assms by simp
next
  case (Raises e)
  then show ?thesis using assms by (cases e) auto
qed

lemma ask_llm_loop_run:
  assumes "a \<le> k" "k \<le> MAX_RETRIES"
    and "\<forall>j. a \<le> j \<and> j < k \<longrightarrow> retryable (api j)"
    and "\<not> retryable (api k) \<or> k = MAX_RETRIES"
  shows "ask_llm_loop fl api [a..<MAX_RETRIES + 1] b tr =
           (Some (final_answer (api k)),
            tr @ concat (map (\<lambda>j. [Call j, Sleep (((\<lambda>b. fmul fl b (BACKOFF_FACTOR fl)) ^^ (j - a)) b)])
                            [a..<k]) @ [Call k])"
  using assms
proof (induction "k - a" arbitrary: a b tr)
  case 0
  then have ak: "a = k" by simp
  have l: "[k..<MAX_RETRIES + 1] = k # [Suc k..<MAX_RETRIES + 1]"
    by (rule upt_conv_Cons) (use "0.prems"(2) in simp)
  have "ask_llm_loop fl api [k..<MAX_RETRIES + 1] b tr = (Some (final_answer (api k)), tr @ [Call k])"
    unfolding l by (rule ask_llm_loop_final[of api k, OF "0.prems"(4)])
  then show ?case unfolding ak by simp
next
  case (Suc n)
  let ?g = "\<lambda>b. fmul fl b (BACKOFF_FACTOR fl)"
  from Suc.hyps(2) have lt: "a < k" by simp
  have ra: "retryable (api a)" using Suc.prems(3) lt by simp
  have na: "a \<noteq> MAX_RETRIES" using lt Suc.prems(2) by simp
  have l1: "[a..<MAX_RETRIES + 1] = a # [Suc a..<MAX_RETRIES + 1]"
    by (rule upt_conv_Cons) (use lt Suc.prems(2) in simp)
  have l2: "[a..<k] = a # [Suc a..<k]"
    by (rule upt_conv_Cons) (rule lt)
  have n: "n = k - Suc a" using Suc.hyps(2) by simp
  have p3: "\<forall>j. Suc a \<le> j \<and> j < k \<longrightarrow> retryable (api j)"
    using Suc.prems(3) by simp
  have IH: "ask_llm_loop fl api [Suc a..<MAX_RETRIES + 1] (?g b) (tr @ [Call a, Sleep b]) =
           (Some (final_answer (api k)),
            (tr @ [Call a, Sleep b]) @
            concat (map (\<lambda>j. [Call j, Sleep ((?g ^^ (j - Suc a)) (?g b))]) [Suc a..<k]) @ [Call k])"
    using Suc.hyps(1)[OF n _ Suc.prems(2) p3 Suc.prems(4)] lt by simp
  have pw: "map (\<lambda>j. [Call j, Sleep ((?g ^^ (j - Suc a)) (?g b))]) [Suc a..<k]
          = map (\<lambda>j. [Call j, Sleep ((?g ^^ (j - a)) b)]) [Suc a..<k]"
  proof (rule map_cong[OF refl])
    fix j assume "j \<in> set [Suc a..<k]"
    then have "j - a = Suc (j - Suc a)" by auto
    then show "[Call j, Sleep ((?g ^^ (j - Suc a)) (?g b))] = [Call j, Sleep ((?g ^^ (j - a)) b)]"
      using funpow_swap1[of ?g "j - Suc a" b] by simp
  qed
  show ?case
    unfolding l1 ask_llm_loop_retry[of api a, OF ra na] IH pw l2 by simp
qed

lemma ends_at_exists: "\<exists>k. ends_at api k"
proof (cases "\<exists>k. 1 \<le> k \<and> k \<le> MAX_RETRIES \<and> \<not> retryable (api k)")
  case True
  define k where "k = (LEAST k. 1 \<le> k \<and> k \<le> MAX_RETRIES \<and> \<not> retryable (api k))"
  have P: "1 \<le> k \<and> k \<le> MAX_RETRIES \<and> \<not> retryable (api k)"
    unfolding k_def using True by (rule LeastI_ex)
  have m: "\<And>j. 1 \<le> j \<Longrightarrow> j < k \<Longrightarrow> retryable (api j)"
  proof (rule ccontr)
    fix j assume j: "1 \<le> j" "j < k" "\<not> retryable (api j)"
    then have "1 \<le> j \<and> j \<le> MAX_RETRIES \<and> \<not> retryable (api j)" using P by simp
    then have "k \<le> j" unfolding k_def by (rule Least_le)
    with j(2) show False by simp
  qed
  show ?thesis
    by (rule exI[of _ k]) (use P m in \<open>auto simp: ends_at_def\<close>)
next
  case False
  then show ?thesis
    by (intro exI[of _ MAX_RETRIES]) (auto simp: ends_at_def MAX_RETRIES_def)
qed

lemma ask_llm_ends:
  assumes "ends_at api k"
  shows "ask_llm fl api = (Some (final_answer (api k)), expected_trace fl k)"
proof -
  have 1: "(1::nat) \<le> k" "k \<le> MAX_RETRIES" using assms by (simp_all add: ends_at_def)
  have 2: "\<forall>j. 1 \<le> j \<and> j < k \<longrightarrow> retryable (api j)" using assms by (simp add: ends_at_def)
  have 3: "\<not> retryable (api k) \<or> k = MAX_RETRIES" using assms by (auto simp: ends_at_def)
  show ?thesis
    unfolding ask_llm_def expected_trace_def backoff_delay_def
    using ask_llm_loop_run[OF 1 2 3, of fl "SLEEP_BACKOFF fl" "[]"] by simp
qed

lemma trace_calls:
  "filter (\<lambda>ev. \<exists>j. ev = Call j) (concat (map (\<lambda>j. [Call j, Sleep (f j)]) xs)) = map Call xs"
  by (induction xs) auto

lemma trace_sleep:
  "j < length xs \<Longrightarrow>
     (concat (map (\<lambda>i. [Call i, Sleep (f i)]) xs) @ ys) ! (2 * j + 1) = Sleep (f (xs ! j))"
proof (induction xs arbitrary: j)
  case Nil
  then show ?case by simp
next
  case (Cons x xs)
  then show ?case by (cases j) auto
qed

lemma ask_llm_calls:
  assumes "ends_at api k"
  shows "length (filter (\<lambda>ev. \<exists>j. ev = Call j) (snd (ask_llm fl api))) = k"
proof -
  have k1: "1 \<le> k" using assms by (simp add: ends_at_def)
  have "length (filter (\<lambda>ev. \<exists>j. ev = Call j) (expected_trace fl k)) = length (map Call [1..<k]) + 1"
    unfolding expected_trace_def filter_append trace_calls by simp
  then show ?thesis unfolding ask_llm_ends[OF assms] using k1 by simp
qed

lemma ask_llm_sleeps:
  assumes "ends_at api k" "j < k - 1"
  shows "snd (ask_llm fl api) ! (2 * j + 1) = Sleep (backoff_delay fl j)"
proof -
  have "j < length [1..<k]" using assms(2) by simp
  from trace_sleep[OF this, of "\<lambda>i. backoff_delay fl (i - 1)" "[Call k]"]
  have "expected_trace fl k ! (2 * j + 1) = Sleep (backoff_delay fl ([1..<k] ! j - 1))"
    unfolding expected_trace_def .
  then show ?thesis unfolding ask_llm_ends[OF assms(1)] using assms(2) by simp
qed

lemma backoff_delay_0: "backoff_delay fl 0 = float_lit fl 20 1"
  by (simp add: backoff_delay_def SLEEP_BACKOFF_def)

lemma backoff_delay_Suc:
  "backoff_delay fl (Suc j) = fmul fl (backoff_delay fl j) (float_lit fl 17 1)"
  by (simp add: backoff_delay_def BACKOFF_FACTOR_def)

text \<open>
  Claim C4. Every call of \<open>ask_llm\<close> ends at an attempt \<open>k\<close> between 1 and
  \<open>MAX_RETRIES = 4\<close>: the first attempt that is not a retryable failure, or the
  fourth. It returns the answer of that attempt, for a failure its error text, and
  has made exactly the attempts 1 to \<open>k\<close>, with a delay after each attempt but the
  last; the delays start at \<open>SLEEP_BACKOFF = 2.0\<close> and each is the previous one times
  1.7. So a failure that is not retryable ends the call at once with that error, no
  call makes more than four attempts, and a retryable failure at the fourth attempt
  ends the call with that last error.
\<close>

theorem ask_llm_retry_protocol:
  "(\<exists>k. ends_at api k) \<and>
   (\<forall>k. ends_at api k \<longrightarrow>
      ask_llm fl api = (Some (final_answer (api k)), expected_trace fl k)
      \<and> length (filter (\<lambda>ev. \<exists>j. ev = Call j) (snd (ask_llm fl api))) = k
      \<and> k \<le> 4
      \<and> (\<forall>j < k - 1. snd (ask_llm fl api) ! (2 * j + 1) = Sleep (backoff_delay fl j))
      \<and> backoff_delay fl 0 = float_lit fl 20 1
      \<and> (\<forall>j. backoff_delay fl (Suc j) = fmul fl (backoff_delay fl j) (float_lit fl 17 1))
      \<and> (\<forall>e. api k = Raises e \<longrightarrow> fst (ask_llm fl api) = Some (None, Some (reported_error e))))"
proof (intro conjI allI impI)
  show "\<exists>k. ends_at api k" by (rule ends_at_exists)
next
  fix k assume "ends_at api k"
  then show "ask_llm fl api = (Some (final_answer (api k)), expected_trace fl k)"
    by (rule ask_llm_ends)
next
  fix k assume "ends_at api k"
  then show "length (filter (\<lambda>ev. \<exists>j. ev = Call j) (snd (ask_llm fl api))) = k"
    by (rule ask_llm_calls)
next
  fix k assume "ends_at api k"
  then show "k \<le> 4" by (simp add: ends_at_def MAX_RETRIES_def)
next
  fix k j assume "ends_at api k" "j < k - 1"
  then show "snd (ask_llm fl api) ! (2 * j + 1) = Sleep (backoff_delay fl j)"
    by (rule ask_llm_sleeps)
next
  show "backoff_delay fl 0 = float_lit fl 20 1" by (rule backoff_delay_0)
next
  fix j show "backoff_delay fl (Suc j) = fmul fl (backoff_delay fl j) (float_lit fl 17 1)"
    by (rule backoff_delay_Suc)
next
  fix k e assume "ends_at api k" "api k = Raises e"
  then show "fst (ask_llm fl api) = Some (None, Some (reported_error e))"
    by (simp add: ask_llm_ends)
qed

theorem ask_llm_retry_protocol_witness:
  "ends_at (api_of_list [Raises (RateLimitError ''slow''), Raises (OtherException ''reset''),
                         Raises (BadRequestError ''bad'')]) 3
   \<and> ask_llm exact_floats
        (api_of_list [Raises (RateLimitError ''slow''), Raises (OtherException ''reset''),
                      Raises (BadRequestError ''bad'')])
       = (Some (None, Some ''BadRequestError: bad''),
          [Call 1, Sleep 2, Call 2, Sleep (17 / 5), Call 3])
   \<and> ends_at (api_of_list []) 4
   \<and> ask_llm exact_floats (api_of_list [])
       = (Some (None, Some ''UnexpectedError: no answer''),
          [Call 1, Sleep 2, Call 2, Sleep (17 / 5), Call 3, Sleep (289 / 50), Call 4])"
proof -
  let ?a = "api_of_list [Raises (RateLimitError ''slow''), Raises (OtherException ''reset''),
                         Raises (BadRequestError ''bad'')]"
  have e1: "ends_at ?a 3" by code_simp
  have e2: "ends_at (api_of_list []) 4"
    by (simp add: ends_at_def api_of_list_def MAX_RETRIES_def)
  have f1: "final_answer (?a 3) = (None, Some ''BadRequestError: bad'')" by code_simp
  have f2: "final_answer (api_of_list [] 4) = (None, Some ''UnexpectedError: no answer'')"
    by code_simp
  have t1: "expected_trace exact_floats 3 = [Call 1, Sleep 2, Call 2, Sleep (17 / 5), Call 3]"
    by code_simp
  have t2: "expected_trace exact_floats 4
              = [Call 1, Sleep 2, Call 2, Sleep (17 / 5), Call 3, Sleep (289 / 50), Call 4]"
    by code_simp
  have r1: "ask_llm exact_floats ?a = (Some (final_answer (?a 3)), expected_trace exact_floats 3)"
    by (rule ask_llm_retry_protocol[of ?a exact_floats, THEN conjunct2, rule_format,
               OF e1, THEN conjunct1])
  have r2: "ask_llm exact_floats (api_of_list [])
              = (Some (final_answer (api_of_list [] 4)), expected_trace exact_floats 4)"
    by (rule ask_llm_retry_protocol[of "api_of_list []" exact_floats, THEN conjunct2,
               rule_format, OF e2, THEN conjunct1])
  have s1: "ask_llm exact_floats ?a
              = (Some (None, Some ''BadRequestError: bad''),
                 [Call 1, Sleep 2, Call 2, Sleep (17 / 5), Call 3])"
    using r1 by (simp only: f1 t1)
  have s2: "ask_llm exact_floats (api_of_list [])
              = (Some (None, Some ''UnexpectedError: no answer''),
                 [Call 1, Sleep 2, Call 2, Sleep (17 / 5), Call 3, Sleep (289 / 50), Call 4])"
    using r2 by (simp only: f2 t2)
  show ?thesis
    by (intro conjI) (rule e1, rule s1, rule e2, rule s2)
qed
section \<open>The classification client: empty input\<close>

lemma strip_Nil: "strip [] = []"
  by (simp add: strip_def lstrip_def rstrip_def)

lemma strip_empty_iff: "(strip s = []) = (\<forall>c \<in> set s. is_space c)"
proof
  assume "strip s = []"
  then have "filter (\<lambda>c. \<not> is_space c) (strip s) = []" by simp
  then have "filter (\<lambda>c. \<not> is_space c) s = []"
    by (simp add: filter_strip)
  then show "\<forall>c \<in> set s. is_space c" by (simp add: filter_empty_conv)
next
  assume "\<forall>c \<in> set s. is_space c"
  then have "lstrip s = []" by (simp add: lstrip_def)
  then show "strip s = []" by (simp add: strip_def rstrip_def)
qed

text \<open>
  Claim C6. For every record whose \<^verbatim>\<open>comments\<close> field is missing, is not a string, or
  is a string of whitespace only (the empty string included), \<open>classify_record\<close>
  returns at once the result with no predicted label and the note
  \<^verbatim>\<open>Missing or empty 'comments'.\<close>, whatever the remote service would answer; its
  trace is empty: no attempt is made and no delay is slept.
\<close>

theorem classify_record_empty_input:
  assumes "rec ''comments'' = None
           \<or> (\<exists>v. rec ''comments'' = Some v \<and> (\<forall>s. v \<noteq> JStr s))
           \<or> (\<exists>s. rec ''comments'' = Some (JStr s) \<and> (\<forall>c \<in> set s. is_space c))"
  shows "classify_record fl api (i, rec) =
           (Inr \<lparr>idx = i, xml = ''<xml>none</xml>'', pred_labels = [],
                 error = Some ''Missing or empty 'comments'.'',
                 comment_length = (case rec ''comments'' of Some (JStr s) \<Rightarrow> length s | _ \<Rightarrow> 0)\<rparr>,
            [])"
  using assms
proof (elim disjE exE conjE)
  assume "rec ''comments'' = None"
  then show ?thesis
    by (simp add: classify_record_def get_or_empty_def strip_Nil)
next
  fix v assume "rec ''comments'' = Some v" "\<forall>s. v \<noteq> JStr s"
  then show ?thesis
    by (cases v) (simp_all add: classify_record_def get_or_empty_def)
next
  fix s assume b: "rec ''comments'' = Some (JStr s)" "\<forall>c \<in> set s. is_space c"
  then have "strip s = []" by (simp add: strip_empty_iff)
  then show ?thesis
    using b(1) by (simp add: classify_record_def get_or_empty_def)
qed

theorem classify_record_empty_input_witness:
  "classify_record exact_floats (api_of_list [Returns [Some ''<xml>pii</xml>'']])
     (7, dict_of_items [(''comments'', JStr ''  '')])
   = (Inr \<lparr>idx = 7, xml = ''<xml>none</xml>'', pred_labels = [],
           error = Some ''Missing or empty 'comments'.'', comment_length = 2\<rparr>, [])
   \<and> classify_record exact_floats (api_of_list [Returns [Some ''<xml>pii</xml>'']])
     (8, dict_of_items [(''comments'', JNull)])
   = (Inr \<lparr>idx = 8, xml = ''<xml>none</xml>'', pred_labels = [],
           error = Some ''Missing or empty 'comments'.'', comment_length = 0\<rparr>, [])"
proof -
  let ?r = "dict_of_items [(''comments'', JStr ''  '')]"
  let ?q = "dict_of_items [(''comments'', JNull)]"
  have a: "?r ''comments'' = Some (JStr ''  '')" by (simp add: dict_of_items_def)
  have b: "\<forall>c \<in> set ''  ''. is_space c" by code_simp
  have c: "?q ''comments'' = Some JNull" by (simp add: dict_of_items_def)
  have h1: "?r ''comments'' = None
           \<or> (\<exists>v. ?r ''comments'' = Some v \<and> (\<forall>s. v \<noteq> JStr s))
           \<or> (\<exists>s. ?r ''comments'' = Some (JStr s) \<and> (\<forall>c \<in> set s. is_space c))"
    using a b by blast
  have h2: "?q ''comments'' = None
           \<or> (\<exists>v. ?q ''comments'' = Some v \<and> (\<forall>s. v \<noteq> JStr s))
           \<or> (\<exists>s. ?q ''comments'' = Some (JStr s) \<and> (\<forall>c \<in> set s. is_space c))"
    using c by auto
  have l1: "(case ?r ''comments'' of Some (JStr s) \<Rightarrow> length s | _ \<Rightarrow> 0) = 2"
    by (simp add: dict_of_items_def)
  have l2: "(case ?q ''comments'' of Some (JStr s) \<Rightarrow> length s | _ \<Rightarrow> 0) = 0"
    by (simp add: dict_of_items_def)
  have g1: "classify_record exact_floats (api_of_list [Returns [Some ''<xml>pii</xml>'']]) (7, ?r)
     = (Inr \<lparr>idx = 7, xml = ''<xml>none</xml>'', pred_labels = [],
             error = Some ''Missing or empty 'comments'.'', comment_length = 2\<rparr>, [])"
    using classify_record_empty_input[of ?r exact_floats
            "api_of_list [Returns [Some ''<xml>pii</xml>'']]" 7, OF h1]
    unfolding l1 .
  have g2: "classify_record exact_floats (api_of_list [Returns [Some ''<xml>pii</xml>'']]) (8, ?q)
     = (Inr \<lparr>idx = 8, xml = ''<xml>none</xml>'', pred_labels = [],
             error = Some ''Missing or empty 'comments'.'', comment_length = 0\<rparr>, [])"
    using classify_record_empty_input[of ?q exact_floats
            "api_of_list [Returns [Some ''<xml>pii</xml>'']]" 8, OF h2]
    unfolding l2 .
  show ?thesis using g1 g2 by (rule conjI)
qed
section \<open>Searching the answer block\<close>

lemma lower_char_lt: "(lower_char c = CHR ''<'') = (c = CHR ''<'')"
  by (auto simp: char_eq_nat of_char_lower)

lemma lower_char_gt: "(lower_char c = CHR ''>'') = (c = CHR ''>'')"
  by (auto simp: char_eq_nat of_char_lower)

lemma length_lower: "length (lower s) = length s"
  by (simp add: lower_def)

lemma lower_take: "lower (take n s) = take n (lower s)"
  by (simp add: lower_def take_map)

lemma lower_drop: "lower (drop n s) = drop n (lower s)"
  by (simp add: lower_def drop_map)

lemma lower_nth: "i < length s \<Longrightarrow> lower s ! i = lower_char (s ! i)"
  by (simp add: lower_def)

lemma ci_match_append_long:
  "length p \<le> length w \<Longrightarrow> ci_match p (w @ r) = ci_match p w"
  by (simp add: ci_match_def)

lemma ci_match_straddle:
  assumes "ci_match p (w @ CHR ''<'' # z)" "length w < length p"
  shows "lower p ! length w = CHR ''<''"
proof -
  let ?s = "w @ CHR ''<'' # z"
  from assms(1) have eq: "lower (take (length p) ?s) = lower p" and len: "length p \<le> length ?s"
    by (simp_all add: ci_match_def)
  have i: "length w < length (take (length p) ?s)" using assms(2) len by simp
  have "lower (take (length p) ?s) ! length w = lower_char (take (length p) ?s ! length w)"
    using i by (rule lower_nth)
  also have "take (length p) ?s ! length w = ?s ! length w"
    using assms(2) by (rule nth_take)
  also have "?s ! length w = CHR ''<''" by (rule nth_append_length)
  finally show ?thesis unfolding eq by (simp add: lower_char_lt)
qed

lemma open_lt_index: "i < 5 \<Longrightarrow> ''<xml>'' ! i = CHR ''<'' \<Longrightarrow> i = 0"
proof -
  assume "i < 5"
  then have "i = 0 \<or> i = 1 \<or> i = 2 \<or> i = 3 \<or> i = 4" by arith
  moreover assume "''<xml>'' ! i = CHR ''<''"
  ultimately show "i = 0" by auto
qed

lemma close_lt_index: "i < 6 \<Longrightarrow> ''</xml>'' ! i = CHR ''<'' \<Longrightarrow> i = 0"
proof -
  assume "i < 6"
  then have "i = 0 \<or> i = 1 \<or> i = 2 \<or> i = 3 \<or> i = 4 \<or> i = 5" by arith
  moreover assume "''</xml>'' ! i = CHR ''<''"
  ultimately show "i = 0" by auto
qed

lemma open_inside:
  assumes "ci_match ''<xml>'' (w @ CHR ''<'' # z)" "w \<noteq> []"
  shows "ci_match ''<xml>'' w"
proof (cases "length ''<xml>'' \<le> length w")
  case True
  then show ?thesis using assms(1) by (simp only: ci_match_append_long)
next
  case False
  then have l: "length w < length ''<xml>''" by simp
  from ci_match_straddle[OF assms(1) l] have "''<xml>'' ! length w = CHR ''<''"
    by (simp only: lower_open)
  moreover have "length w < 5" using l by simp
  ultimately have "length w = 0" by (rule open_lt_index[rotated])
  with assms(2) show ?thesis by simp
qed

lemma close_inside:
  assumes "ci_match ''</xml>'' (w @ CHR ''<'' # z)" "w \<noteq> []"
  shows "ci_match ''</xml>'' w"
proof (cases "length ''</xml>'' \<le> length w")
  case True
  then show ?thesis using assms(1) by (simp only: ci_match_append_long)
next
  case False
  then have l: "length w < length ''</xml>''" by simp
  from ci_match_straddle[OF assms(1) l] have "''</xml>'' ! length w = CHR ''<''"
    by (simp only: lower_close)
  moreover have "length w < 6" using l by simp
  ultimately have "length w = 0" by (rule close_lt_index[rotated])
  with assms(2) show ?thesis by simp
qed

lemma search_skips_prose:
  "\<not> contains_ci ''<xml>'' pre \<Longrightarrow>
     XML_RE_search (pre @ CHR ''<'' # z) = XML_RE_search (CHR ''<'' # z)"
proof (induction pre)
  case Nil
  show ?case by simp
next
  case (Cons c w)
  from Cons.prems have n1: "\<not> ci_match ''<xml>'' (c # w)" and n2: "\<not> contains_ci ''<xml>'' w"
    by simp_all
  have "\<not> ci_match ''<xml>'' ((c # w) @ CHR ''<'' # z)"
    using open_inside[of "c # w" z] n1 by blast
  then have "XML_RE_search ((c # w) @ CHR ''<'' # z) = XML_RE_search (w @ CHR ''<'' # z)"
    by simp
  then show ?case using Cons.IH[OF n2] by simp
qed

lemma lazy_close_block:
  "\<not> contains_ci ''</xml>'' c \<Longrightarrow> ci_match ''</xml>'' (CHR ''<'' # z) \<Longrightarrow>
     lazy_close (c @ CHR ''<'' # z) = Some (c @ take 6 (CHR ''<'' # z))"
proof (induction c)
  case Nil
  then show ?case by simp
next
  case (Cons a w)
  from Cons.prems(1) have n1: "\<not> ci_match ''</xml>'' (a # w)" and n2: "\<not> contains_ci ''</xml>'' w"
    by simp_all
  have "\<not> ci_match ''</xml>'' ((a # w) @ CHR ''<'' # z)"
    using close_inside[of "a # w" z] n1 by blast
  then have "lazy_close ((a # w) @ CHR ''<'' # z) = map_option ((#) a) (lazy_close (w @ CHR ''<'' # z))"
    by simp
  then show ?case using Cons.IH[OF n2 Cons.prems(2)] by simp
qed

lemma tag_shape:
  assumes "lower t = p" "p = CHR ''<'' # q"
  shows "\<exists>t'. t = CHR ''<'' # t'"
proof (cases t)
  case Nil
  then show ?thesis using assms by (simp add: lower_def)
next
  case (Cons a t')
  then have "lower_char a = CHR ''<''" using assms by (simp add: lower_def)
  then show ?thesis using Cons by (simp add: lower_char_lt)
qed

lemma search_block:
  assumes o: "lower otag = ''<xml>''" and e: "lower etag = ''</xml>''"
    and c: "\<not> contains_ci ''</xml>'' c"
  shows "XML_RE_search (otag @ c @ etag @ post) = Some (otag @ c @ etag)"
proof -
  have lo: "length otag = 5" using o length_lower[of otag] by simp
  have le: "length etag = 6" using e length_lower[of etag] by simp
  obtain o' where o': "otag = CHR ''<'' # o'" using tag_shape[OF o] by auto
  obtain e' where e': "etag = CHR ''<'' # e'" using tag_shape[OF e] by auto
  have mo: "ci_match ''<xml>'' (otag @ c @ etag @ post)"
    using o lo by (simp add: ci_match_def lower_open)
  have me: "ci_match ''</xml>'' (etag @ post)"
    using e le by (simp add: ci_match_def lower_close)
  have "lazy_close (c @ etag @ post) = Some (c @ take 6 (etag @ post))"
    using lazy_close_block[OF c, of "e' @ post"] me unfolding e' by simp
  then have lc: "lazy_close (drop 5 (otag @ c @ etag @ post)) = Some (c @ etag)"
    using lo le by simp
  have "XML_RE_search (CHR ''<'' # o' @ c @ etag @ post) =
          Some (take 5 (CHR ''<'' # o' @ c @ etag @ post) @ c @ etag)"
    using mo lc unfolding o' by (simp del: ci_match_def)
  then show ?thesis using lo unfolding o' by simp
qed

lemma search_prose_block:
  assumes o: "lower otag = ''<xml>''" and e: "lower etag = ''</xml>''"
    and c: "\<not> contains_ci ''</xml>'' c" and p: "\<not> contains_ci ''<xml>'' pre"
  shows "XML_RE_search (pre @ otag @ c @ etag @ post) = Some (otag @ c @ etag)"
proof -
  obtain o' where o': "otag = CHR ''<'' # o'" using tag_shape[OF o] by auto
  have "XML_RE_search (pre @ CHR ''<'' # o' @ c @ etag @ post)
          = XML_RE_search (CHR ''<'' # o' @ c @ etag @ post)"
    by (rule search_skips_prose[OF p])
  then show ?thesis using search_block[OF o e c, of post] unfolding o' by simp
qed

lemma close_complete: "ci_match ''</xml>'' w \<Longrightarrow> lazy_close (a @ w) \<noteq> None"
proof (induction a)
  case Nil
  then show ?case by (cases w) (simp_all add: ci_match_def)
next
  case (Cons x a)
  then show ?case by simp
qed

lemma search_complete:
  "ci_match ''<xml>'' v \<Longrightarrow> lazy_close (drop 5 v) \<noteq> None \<Longrightarrow> XML_RE_search (a @ v) \<noteq> None"
proof (induction a)
  case Nil
  then show ?case by (cases v) (auto simp: ci_match_def)
next
  case (Cons x a)
  then show ?case by (auto split: option.splits)
qed
section \<open>Unparseable responses\<close>

lemma len_open: "length ''<xml>'' = 5"
  by simp

lemma len_close: "length ''</xml>'' = 6"
  by simp

lemma tagged_long:
  assumes s: "startswith (lower u) ''<xml>''" and e: "endswith (lower u) ''</xml>''"
  shows "11 \<le> length u"
proof (rule ccontr)
  assume "\<not> 11 \<le> length u"
  then have lt: "length u < 11" by simp
  from s have tk: "take 5 (lower u) = ''<xml>''" unfolding startswith_def len_open .
  from e have "6 \<le> length u \<and> drop (length u - 6) (lower u) = ''</xml>''"
    unfolding endswith_def len_close length_lower .
  then have l6: "6 \<le> length u" and dr: "drop (length u - 6) (lower u) = ''</xml>''"
    by blast+
  let ?i = "length u - 6"
  have i5: "?i < 5" using lt by simp
  have il: "?i < length (lower u)" using l6 by (simp add: length_lower)
  have "lower u ! ?i = hd (drop ?i (lower u))"
    using il by (simp add: hd_drop_conv_nth)
  then have a: "lower u ! ?i = CHR ''<''" unfolding dr by simp
  have "take 5 (lower u) ! ?i = lower u ! ?i" using i5 by (rule nth_take)
  then have "''<xml>'' ! ?i = CHR ''<''" using a unfolding tk by simp
  with i5 have "?i = 0" by (rule open_lt_index)
  then have "lower u = ''</xml>''" using dr by simp
  then have "take 5 (lower u) = ''</xml''" by simp
  with tk show False by simp
qed

lemma tagged_has_block:
  assumes s: "startswith (lower u) ''<xml>''" and e: "endswith (lower u) ''</xml>''"
  shows "XML_RE_search (a @ u @ b) \<noteq> None"
proof -
  have len: "11 \<le> length u" using s e by (rule tagged_long)
  from s have tk: "take 5 (lower u) = ''<xml>''" unfolding startswith_def len_open .
  from e have "6 \<le> length u \<and> drop (length u - 6) (lower u) = ''</xml>''"
    unfolding endswith_def len_close length_lower .
  then have dr: "drop (length u - 6) (lower u) = ''</xml>''" by blast
  have mo: "ci_match ''<xml>'' (u @ b)"
    unfolding ci_match_def len_open lower_open using len tk by (simp add: lower_take)
  let ?w = "drop (length u - 6) u @ b"
  have t6: "take 6 ?w = drop (length u - 6) u" using len by simp
  have "lower (take 6 ?w) = ''</xml>''" by (simp only: t6 lower_drop dr)
  then have mc: "ci_match ''</xml>'' ?w"
    unfolding ci_match_def len_close lower_close using len by simp
  have d1: "drop 5 u = take (length u - 11) (drop 5 u) @ drop (length u - 11) (drop 5 u)"
    by (rule append_take_drop_id[symmetric])
  have d2: "drop (length u - 11) (drop 5 u) = drop (length u - 6) u"
    using len by simp
  have d3: "drop 5 (u @ b) = drop 5 u @ b" using len by simp
  have "drop 5 (u @ b) = take (length u - 11) (drop 5 u) @ ?w"
    unfolding d3 using d1 unfolding d2 by simp
  then have "lazy_close (drop 5 (u @ b)) \<noteq> None"
    using close_complete[OF mc] by simp
  with mo show ?thesis by (rule search_complete)
qed

lemma strip_decomp:
  "takeWhile is_space t @ strip t @ rev (takeWhile is_space (rev (lstrip t))) = t"
proof -
  have "strip t @ rev (takeWhile is_space (rev (lstrip t))) = lstrip t"
    unfolding strip_def by (rule rstrip_decomp)
  then show ?thesis by (simp only: lstrip_decomp)
qed

lemma tagged_extracts:
  assumes "startswith (lower (strip t)) ''<xml>''" "endswith (lower (strip t)) ''</xml>''"
  shows "XML_RE_search t \<noteq> None"
  using tagged_has_block[OF assms, of "takeWhile is_space t" "rev (takeWhile is_space (rev (lstrip t)))"]
  unfolding strip_decomp .

lemma sanitize_xml_None: "sanitize_xml None = None"
  by (simp add: sanitize_xml_def)

lemma unparseable_answer:
  assumes x: "extract_xml_answer content = None"
    and r: "\<forall>t. content = Some t \<longrightarrow> salvage_inner (strip t) = []"
  shows "answer_of_content content = (None, Some ''No valid <xml>...</xml> returned.'')"
proof -
  have "sanitize_xml content = None"
  proof (cases content)
    case None
    then show ?thesis by (simp add: sanitize_xml_None)
  next
    case (Some t)
    show ?thesis
    proof (cases "t = []")
      case True
      then show ?thesis using Some by (simp add: sanitize_xml_def)
    next
      case False
      then have "XML_RE_search t = None"
        using x Some by (simp add: extract_xml_answer_def)
      then have nt: "\<not> (startswith (lower (strip t)) ''<xml>'' \<and> endswith (lower (strip t)) ''</xml>'')"
        using tagged_extracts[of t] by blast
      have "salvage_inner (strip t) = []" using r Some by simp
      then show ?thesis using Some False nt by (simp add: sanitize_xml_def Let_def)
    qed
  qed
  then show ?thesis
    using x by (simp add: answer_of_content_def Let_def py_or_def truthy_def sanitize_xml_None)
qed

lemma classify_record_response:
  assumes c: "rec ''comments'' = Some (JStr c)" "strip c \<noteq> []"
    and k: "ends_at api k" "api k = Returns choices"
  shows "classify_record fl api (i, rec) =
           (Inr \<lparr>idx = i,
                 xml = (case fst (answer_of_content (first_content choices)) of
                          None \<Rightarrow> [] | Some t \<Rightarrow> t),
                 pred_labels = remdups (response_labels (first_content choices)),
                 error = snd (answer_of_content (first_content choices)),
                 comment_length = length c\<rparr>,
            expected_trace fl k)"
proof -
  have a: "ask_llm fl api = (Some (answer_of_content (first_content choices)), expected_trace fl k)"
    using ask_llm_ends[OF k(1), of fl] k(2) by simp
  obtain x err where xe: "answer_of_content (first_content choices) = (x, err)"
    by (cases "answer_of_content (first_content choices)")
  show ?thesis
    using c by (simp add: classify_record_def get_or_empty_def a xe response_labels_def Let_def)
qed

text \<open>
  Claim C3. When an attempt of the classification client returns a response in which
  \<open>extract_xml_answer\<close> finds no answer block and of which the salvage of
  \<open>sanitize_xml\<close> leaves no residue, the normalisation fails, and the result of
  \<open>classify_record\<close> carries the error \<^verbatim>\<open>No valid <xml>...</xml> returned.\<close>, a
  non-empty text, together with no predicted label and no answer: such a response
  never becomes an empty prediction without an error.
\<close>

theorem unparseable_response_records_error:
  assumes "rec ''comments'' = Some (JStr c)" "strip c \<noteq> []"
    and "ends_at api k" "api k = Returns choices"
    and "extract_xml_answer (first_content choices) = None"
    and "\<forall>t. first_content choices = Some t \<longrightarrow> salvage_inner (strip t) = []"
  shows "answer_of_content (first_content choices)
           = (None, Some ''No valid <xml>...</xml> returned.'')
         \<and> fst (classify_record fl api (i, rec))
           = Inr \<lparr>idx = i, xml = [], pred_labels = [],
                   error = Some ''No valid <xml>...</xml> returned.'',
                   comment_length = length c\<rparr>
         \<and> ''No valid <xml>...</xml> returned.'' \<noteq> []"
proof -
  have a: "answer_of_content (first_content choices)
             = (None, Some ''No valid <xml>...</xml> returned.'')"
    using assms(5,6) by (rule unparseable_answer)
  have l: "response_labels (first_content choices) = []"
    by (simp add: response_labels_def a truthy_def)
  show ?thesis
    unfolding classify_record_response[of rec c api k choices, OF assms(1-4)] a l by simp
qed

theorem unparseable_response_records_error_witness:
  "fst (classify_record exact_floats
          (api_of_list [Raises (RateLimitError ''slow''), Returns [Some ''?! ...'']])
          (0, dict_of_items [(''comments'', JStr ''my key is hunter2'')]))
     = Inr \<lparr>idx = 0, xml = [], pred_labels = [],
             error = Some ''No valid <xml>...</xml> returned.'', comment_length = 17\<rparr>"
proof -
  let ?api = "api_of_list [Raises (RateLimitError ''slow''), Returns [Some ''?! ...'']]"
  let ?rec = "dict_of_items [(''comments'', JStr ''my key is hunter2'')]"
  have 1: "?rec ''comments'' = Some (JStr ''my key is hunter2'')"
    by (simp add: dict_of_items_def)
  have 2: "strip ''my key is hunter2'' \<noteq> []" by code_simp
  have 3: "ends_at ?api 2" by code_simp
  have 4: "?api 2 = Returns [Some ''?! ...'']" by code_simp
  have 5: "extract_xml_answer (first_content [Some ''?! ...'']) = None" by code_simp
  have 6: "\<forall>t. first_content [Some ''?! ...''] = Some t \<longrightarrow> salvage_inner (strip t) = []"
  proof (intro allI impI)
    fix t assume "first_content [Some ''?! ...''] = Some t"
    then have t: "t = ''?! ...''" by (simp add: first_content_def)
    have "salvage_inner (strip ''?! ...'') = []" by code_simp
    then show "salvage_inner (strip t) = []" unfolding t .
  qed
  have 7: "length ''my key is hunter2'' = 17" by simp
  show ?thesis
    using unparseable_response_records_error[of ?rec "''my key is hunter2''" ?api 2
            "[Some ''?! ...'']" exact_floats 0, OF 1 2 3 4 5 6]
    unfolding 7 by (rule conjunct2[THEN conjunct1])
qed
section \<open>Answer blocks with tags in any case\<close>

lemma parse_labels_block:
  assumes lo: "length otag = 5" and le: "length etag = 6"
    and st: "strip (otag @ c @ etag) = otag @ c @ etag"
  shows "parse_labels_from_xml (otag @ c @ etag) =
     (if ''none'' \<in> set (split_comma (canon c)) then []
      else dedup_first (filter (\<lambda>t. t \<in> ALLOWED_LABELS \<and> t \<noteq> ''none'')
                               (split_comma (canon c))))"
proof -
  have sl: "slice_5_m6 (otag @ c @ etag) = c"
    using lo le by (simp add: slice_5_m6_def)
  show ?thesis
  proof (cases "strip c = []")
    case True
    have "parse_labels_from_xml (otag @ c @ etag) = []"
      unfolding parse_labels_from_xml_def st sl using True by simp
    moreover have "canon c = []" using True by (rule strip_empty_canon)
    ultimately show ?thesis by (simp add: ALLOWED_LABELS_def)
  next
    case False
    have pc: "map (\<lambda>p0. filter label_char (replace_ni p0))
                (map (\<lambda>p. lower (strip p)) (split_comma (strip c))) = split_comma (canon c)"
      by (simp only: parts_canon canon_strip)
    have "parse_labels_from_xml (otag @ c @ etag) =
            (case collect_labels (map (\<lambda>p. lower (strip p)) (split_comma (strip c))) [] of
               None \<Rightarrow> [] | Some labels \<Rightarrow> dedup_loop labels {} [])"
      unfolding parse_labels_from_xml_def st sl using False by (simp add: Let_def)
    then show ?thesis
      unfolding collect_labels_eq pc by (simp add: dedup_loop_first)
  qed
qed

lemma block_strip:
  assumes o: "lower otag = ''<xml>''" and e: "lower etag = ''</xml>''"
  shows "strip (otag @ c @ etag) = otag @ c @ etag"
proof (rule strip_id, rule disjI2, rule conjI)
  obtain o' where o': "otag = CHR ''<'' # o'" using tag_shape[OF o] by auto
  show "\<not> is_space (hd (otag @ c @ etag))" unfolding o' by (simp add: not_space_lt)
  have ne: "etag \<noteq> []" using e by (auto simp: lower_def)
  have "last (lower etag) = lower_char (last etag)"
    unfolding lower_def using ne by (rule last_map)
  then have "lower_char (last etag) = CHR ''>''" unfolding e by simp
  then have "last etag = CHR ''>''" by (simp only: lower_char_gt)
  then show "\<not> is_space (last (otag @ c @ etag))" using ne by (simp add: not_space_gt)
qed

lemma block_tags:
  assumes o: "lower otag = ''<xml>''" and e: "lower etag = ''</xml>''"
  shows "startswith (lower (otag @ c @ etag)) ''<xml>''"
    and "endswith (lower (otag @ c @ etag)) ''</xml>''"
proof -
  have l: "lower (otag @ c @ etag) = ''<xml>'' @ lower c @ ''</xml>''"
    by (simp only: lower_append o e)
  show "startswith (lower (otag @ c @ etag)) ''<xml>''"
    unfolding l by (rule startswith_append)
  have "endswith ((''<xml>'' @ lower c) @ ''</xml>'') ''</xml>''"
    by (rule endswith_append)
  then show "endswith (lower (otag @ c @ etag)) ''</xml>''"
    by (simp only: l append_assoc)
qed

section \<open>The Response Normalizer\<close>

text \<open>
  Claim C2. For every answer block, whatever the case of its tags, and every inner
  content, \<open>parse_labels_from_xml\<close> returns what steps 3 to 5 describe: the empty
  list as soon as one comma-separated token, lowercased, prefix-repaired and reduced
  to letters and underscores, is the sentinel, whatever the other tokens are;
  otherwise the taxonomy members among the normalized tokens, without duplicates, in
  the order of their first occurrence.
\<close>

theorem parse_labels_from_xml_spec:
  assumes "lower otag = ''<xml>''" "lower etag = ''</xml>''"
  shows "parse_labels_from_xml (otag @ content @ etag) = normalizer_steps_3_5 content"
proof -
  have lo: "length otag = 5" using assms(1) length_lower[of otag] by simp
  have le: "length etag = 6" using assms(2) length_lower[of etag] by simp
  have st: "strip (otag @ content @ etag) = otag @ content @ etag"
    using assms by (rule block_strip)
  show ?thesis
    unfolding parse_labels_block[OF lo le st] normalizer_steps_3_5_def normalized_tokens_canon
    by (simp add: Let_def)
qed

theorem parse_labels_from_xml_spec_witness:
  "parse_labels_from_xml (''<xml>'' @ ''pii, Conflict, PII ,none:, credentials'' @ ''</xml>'') = []
   \<and> parse_labels_from_xml (''<XML>'' @ ''pii, Conflict, bogus,, PII , credentials'' @ ''</Xml>'')
     = [''pii'', ''conflict'', ''credentials'']"
proof -
  have t: "lower ''<xml>'' = ''<xml>''" "lower ''</xml>'' = ''</xml>''"
          "lower ''<XML>'' = ''<xml>''" "lower ''</Xml>'' = ''</xml>''"
    by code_simp+
  have a: "normalizer_steps_3_5 ''pii, Conflict, PII ,none:, credentials'' = []"
    by code_simp
  have b: "normalizer_steps_3_5 ''pii, Conflict, bogus,, PII , credentials''
             = [''pii'', ''conflict'', ''credentials'']"
    by code_simp
  show ?thesis
    using parse_labels_from_xml_spec[OF t(1,2), of "''pii, Conflict, PII ,none:, credentials''"]
          parse_labels_from_xml_spec[OF t(3,4), of "''pii, Conflict, bogus,, PII , credentials''"]
    unfolding a b by (rule conjI)
qed

section \<open>Invariance of the normalised labels\<close>

lemma response_labels_block:
  assumes o: "lower otag = ''<xml>''" and e: "lower etag = ''</xml>''"
    and c: "\<not> contains_ci ''</xml>'' c" and p: "\<not> contains_ci ''<xml>'' pre"
  shows "response_labels (Some (pre @ otag @ c @ etag @ post)) =
     (if ''none'' \<in> set (split_comma (canon c)) then []
      else dedup_first (filter (\<lambda>t. t \<in> ALLOWED_LABELS \<and> t \<noteq> ''none'')
                               (split_comma (canon c))))"
proof -
  let ?b = "otag @ c @ etag"
  have lo: "length otag = 5" using o length_lower[of otag] by simp
  have le: "length etag = 6" using e length_lower[of etag] by simp
  have st: "strip ?b = ?b" using o e by (rule block_strip)
  have ne: "pre @ otag @ c @ etag @ post \<noteq> []" using lo by auto
  have one: "otag \<noteq> []" using lo by auto
  have x: "extract_xml_answer (Some (pre @ otag @ c @ etag @ post)) = Some ?b"
    using ne by (simp add: extract_xml_answer_def search_prose_block[OF o e c p] st)
  have s: "sanitize_xml (Some ?b) = Some ?b"
    using sanitize_wellformed[of ?b] block_tags[OF o e, of c] by (simp only: st)
  have a: "answer_of_content (Some (pre @ otag @ c @ etag @ post)) = (Some ?b, None)"
    by (simp add: answer_of_content_def x s py_or_def truthy_def Let_def one)
  have "response_labels (Some (pre @ otag @ c @ etag @ post)) = parse_labels_from_xml ?b"
    by (simp add: response_labels_def a truthy_def one)
  then show ?thesis by (simp only: parse_labels_block[OF lo le st])
qed

lemma space_not_keep: "is_space x \<Longrightarrow> \<not> (x = CHR '','' \<or> label_char x)"
  by (auto simp: is_space_nat label_char_def Let_def char_eq_nat)

lemma canon_nospace:
  "canon c = filter (\<lambda>x. x = CHR '','' \<or> label_char x) (filter (\<lambda>x. \<not> is_space x) (lower c))"
proof -
  have "filter (\<lambda>x. x = CHR '','' \<or> label_char x) (filter (\<lambda>x. \<not> is_space x) (lower c))
          = filter (\<lambda>x. \<not> is_space x \<and> (x = CHR '','' \<or> label_char x)) (lower c)"
    by simp
  also have "\<dots> = filter (\<lambda>x. x = CHR '','' \<or> label_char x) (lower c)"
    by (rule filter_cong[OF refl]) (use space_not_keep in blast)
  finally show ?thesis by (simp add: canon_def)
qed

text \<open>
  Claim C7, as stated, fails: prose in front of the answer block changes the labels
  when it holds an opening tag, because the leftmost tag starts the match.
\<close>

theorem response_labels_prose_counterexample:
  "response_labels (Some ''<xml>pii</xml>'') = [''pii'']
   \<and> response_labels (Some (''Format: <xml>...</xml>. Answer: '' @ ''<xml>pii</xml>'')) = []"
  by code_simp

text \<open>
  Claim C7, amended. Take two raw responses, each made of prose, a well-formed answer
  block (opening tag, inner content without a closing tag, closing tag; the tags in
  any case) and more prose, where the prose in front of the block holds no opening
  tag. If the two inner contents agree up to case and whitespace, the labels taken
  from the two responses are equal: the result does not depend on the surrounding
  prose, on whitespace inside or around the block, or on case. In particular
  \<^verbatim>\<open><xml>credentials,pii</xml>\<close> and \<^verbatim>\<open><xml>PII, Credentials</xml>\<close> both give the
  set of \<^verbatim>\<open>credentials\<close> and \<^verbatim>\<open>pii\<close>.
\<close>

theorem response_labels_invariant:
  assumes "lower o1 = ''<xml>''" "lower e1 = ''</xml>''"
    and "lower o2 = ''<xml>''" "lower e2 = ''</xml>''"
    and "\<not> contains_ci ''</xml>'' c1" "\<not> contains_ci ''</xml>'' c2"
    and "\<not> contains_ci ''<xml>'' pre1" "\<not> contains_ci ''<xml>'' pre2"
    and "filter (\<lambda>x. \<not> is_space x) (lower c1) = filter (\<lambda>x. \<not> is_space x) (lower c2)"
  shows "response_labels (Some (pre1 @ o1 @ c1 @ e1 @ post1))
           = response_labels (Some (pre2 @ o2 @ c2 @ e2 @ post2))
         \<and> set (response_labels (Some ''<xml>credentials,pii</xml>'')) = {''credentials'', ''pii''}
         \<and> set (response_labels (Some ''<xml>PII, Credentials</xml>'')) = {''credentials'', ''pii''}"
proof (intro conjI)
  have "canon c1 = canon c2" unfolding canon_nospace assms(9) ..
  then show "response_labels (Some (pre1 @ o1 @ c1 @ e1 @ post1))
           = response_labels (Some (pre2 @ o2 @ c2 @ e2 @ post2))"
    unfolding response_labels_block[OF assms(1,2,5,7)] response_labels_block[OF assms(3,4,6,8)]
    by simp
  have "response_labels (Some ''<xml>credentials,pii</xml>'') = [''credentials'', ''pii'']"
    by code_simp
  then show "set (response_labels (Some ''<xml>credentials,pii</xml>'')) = {''credentials'', ''pii''}"
    by simp
  have "response_labels (Some ''<xml>PII, Credentials</xml>'') = [''pii'', ''credentials'']"
    by code_simp
  then show "set (response_labels (Some ''<xml>PII, Credentials</xml>'')) = {''credentials'', ''pii''}"
    by auto
qed

theorem response_labels_invariant_witness:
  "response_labels (Some (''Sure: '' @ ''<XML>'' @ '' PII ,Conflict'' @ ''</Xml>'' @ '' done''))
     = response_labels (Some ([] @ ''<xml>'' @ ''pii,conflict'' @ ''</xml>'' @ []))"
proof -
  have 1: "lower ''<XML>'' = ''<xml>''" "lower ''</Xml>'' = ''</xml>''"
          "lower ''<xml>'' = ''<xml>''" "lower ''</xml>'' = ''</xml>''"
    by code_simp+
  have 2: "\<not> contains_ci ''</xml>'' '' PII ,Conflict''" "\<not> contains_ci ''</xml>'' ''pii,conflict''"
    by code_simp+
  have 3: "\<not> contains_ci ''<xml>'' ''Sure: ''" "\<not> contains_ci ''<xml>'' []"
    by code_simp+
  have 4: "filter (\<lambda>x. \<not> is_space x) (lower '' PII ,Conflict'')
             = filter (\<lambda>x. \<not> is_space x) (lower ''pii,conflict'')"
    by code_simp
  show ?thesis
    by (rule response_labels_invariant[OF 1 2 3 4, THEN conjunct1])
qed
section \<open>Counters\<close>

lemma cnt_incr: "cnt (incr a c) l = cnt c l + (if l = a then 1 else 0)"
  by (simp add: cnt_def incr_def)

lemma cnt_fold_incr: "cnt (fold incr xs c) l = cnt c l + count_list xs l"
  by (induction xs arbitrary: c) (simp_all add: cnt_incr)

lemma count_list_distinct: "distinct xs \<Longrightarrow> count_list xs l = (if l \<in> set xs then 1 else 0)"
  by (induction xs) auto

lemma cnt_fold_set:
  "cnt (fold incr (filter P (iter_set xs)) c) l = cnt c l + (if l \<in> set xs \<and> P l then 1 else 0)"
proof -
  have d: "distinct (filter P (iter_set xs))" by (simp add: iter_set_def)
  have s: "set (filter P (iter_set xs)) = {x \<in> set xs. P x}" by (simp add: iter_set_def)
  show ?thesis unfolding cnt_fold_incr count_list_distinct[OF d] s by simp
qed

lemma incr_commute: "incr a (incr b c) = incr b (incr a c)"
  by (rule ext) (simp add: incr_def cnt_def)

text \<open>The order in which a loop visits the elements of a set does not matter to the
  counter it increments.\<close>

lemma iter_order_irrelevant:
  assumes "distinct ys" "set ys = set xs"
  shows "fold incr ys c = fold incr (iter_set xs) c"
proof -
  have "mset ys = mset (iter_set xs)"
    using assms by (simp add: iter_set_def set_eq_iff_mset_eq_distinct[symmetric])
  then have "fold incr ys = fold incr (iter_set xs)"
    by (intro fold_multiset_equiv) (auto simp: fun_eq_iff incr_commute)
  then show ?thesis by simp
qed

lemma cnt_empty: "cnt Map.empty l = 0"
  by (simp add: cnt_def)

section \<open>The final pass\<close>

lemma final_loop_fold:
  "final_loop ps results m0 = Inr m \<Longrightarrow>
     m = fold (\<lambda>p. final_update (snd p) (the (results ! fst p))) ps m0
     \<and> (\<forall>p \<in> set ps. fst p < length results \<and> results ! fst p \<noteq> None)"
proof (induction ps arbitrary: m0)
  case Nil
  then show ?case by simp
next
  case (Cons p ps)
  obtain i rec where p: "p = (i, rec)" by (cases p)
  from Cons.prems have i: "i < length results"
    unfolding p by (cases "i < length results") simp_all
  from Cons.prems obtain r where r: "results ! i = Some r"
    unfolding p by (cases "results ! i") (simp_all add: i)
  from Cons.prems have "final_loop ps results (final_update rec r m0) = Inr m"
    unfolding p by (simp add: r i)
  from Cons.IH[OF this] show ?case by (simp add: p r i)
qed

lemma fold_count:
  assumes "\<And>p m. g (f p m) = g m + (if P p then 1 else 0)"
  shows "g (fold f ps m0) = g m0 + length (filter P ps)"
  by (induction ps arbitrary: m0) (simp_all add: assms)

lemma tp_step:
  "cnt (tp_label (final_update rec r m)) l
     = cnt (tp_label m) l
       + (if l \<in> set (pred_labels r) \<and> l \<in> set (parse_ground_truth_labels rec) then 1 else 0)"
  unfolding final_update_def Let_def by (simp add: cnt_fold_set)

lemma fp_step:
  "cnt (fp_label (final_update rec r m)) l
     = cnt (fp_label m) l
       + (if l \<in> set (pred_labels r) \<and> l \<notin> set (parse_ground_truth_labels rec) then 1 else 0)"
  unfolding final_update_def Let_def by (simp add: cnt_fold_set)

lemma fn_step:
  "cnt (fn_label (final_update rec r m)) l
     = cnt (fn_label m) l
       + (if l \<in> set (parse_ground_truth_labels rec) \<and> l \<notin> set (pred_labels r) then 1 else 0)"
  unfolding final_update_def Let_def by (simp add: cnt_fold_set)

lemma enumerate_map: "enumerate 0 xs = map (\<lambda>i. (i, xs ! i)) [0..<length xs]"
  by (rule nth_equalityI) (simp_all add: nth_enumerate_eq)

lemma count_pairs:
  "length (filter P (enumerate 0 xs)) = count_records (length xs) (\<lambda>i. P (i, xs ! i))"
  unfolding enumerate_map count_records_def filter_map length_map comp_def ..

lemma filter_split:
  "length (filter (\<lambda>i. P i \<and> Q i) xs) + length (filter (\<lambda>i. P i \<and> \<not> Q i) xs)
     = length (filter P xs)"
  by (induction xs) auto

lemma count_records_split:
  "count_records n (\<lambda>i. P i \<and> Q i) + count_records n (\<lambda>i. P i \<and> \<not> Q i) = count_records n P"
  unfolding count_records_def by (rule filter_split)
lemma final_loop_total:
  "\<forall>p \<in> set ps. fst p < length results \<and> results ! fst p \<noteq> None \<Longrightarrow>
     final_loop ps results m0 = Inr (fold (\<lambda>p. final_update (snd p) (the (results ! fst p))) ps m0)"
proof (induction ps arbitrary: m0)
  case Nil
  show ?case by simp
next
  case (Cons p ps)
  obtain i rec where p: "p = (i, rec)" by (cases p)
  from Cons.prems obtain r where r: "results ! i = Some r" and i: "i < length results"
    unfolding p by auto
  from Cons.prems have "\<forall>p \<in> set ps. fst p < length results \<and> results ! fst p \<noteq> None"
    by simp
  from Cons.IH[OF this] show ?case by (simp add: p r i)
qed

lemma count_records_cong:
  "(\<And>i. i < n \<Longrightarrow> P i = Q i) \<Longrightarrow> count_records n P = count_records n Q"
  unfolding count_records_def
  by (rule arg_cong[where f = length], rule filter_cong) simp_all

lemma final_pass_counts:
  assumes "final_pass records results = Inr m"
    and step: "\<And>p m. g (final_update (snd p) (the (results ! fst p)) m)
                     = g m + (if P (the (results ! fst p)) (snd p) then 1 else 0)"
    and init: "g final_init = 0"
    and pq: "\<And>i r. i < length records \<Longrightarrow> results ! i = Some r \<Longrightarrow> P r (records ! i) = Q i"
  shows "g m = count_records (length records) Q"
proof -
  from assms(1) have m: "m = fold (\<lambda>p. final_update (snd p) (the (results ! fst p)))
                              (enumerate 0 records) final_init"
    and some: "\<forall>p \<in> set (enumerate 0 records). fst p < length results \<and> results ! fst p \<noteq> None"
    unfolding final_pass_def by (auto dest: final_loop_fold)
  have "g m = g final_init
              + length (filter (\<lambda>p. P (the (results ! fst p)) (snd p)) (enumerate 0 records))"
    unfolding m by (rule fold_count) (rule step)
  also have "\<dots> = count_records (length records) (\<lambda>i. P (the (results ! i)) (records ! i))"
    unfolding init count_pairs by simp
  also have "\<dots> = count_records (length records) Q"
  proof (rule count_records_cong)
    fix i assume i: "i < length records"
    then have "(i, records ! i) \<in> set (enumerate 0 records)"
      unfolding enumerate_map by simp
    with some obtain r where r: "results ! i = Some r" by fastforce
    show "P (the (results ! i)) (records ! i) = Q i"
      using pq[OF i r] r by simp
  qed
  finally show ?thesis .
qed

text \<open>
  Claim C8. Whenever the final pass completes on a result set, for every label the
  counters hold what the claim says: \<open>tp_label\<close> counts the records with the label
  in both sets, \<open>fp_label\<close> those with it in the predicted set only, \<open>fn_label\<close>
  those with it in the ground-truth set only; hence TP + FP is the number of records
  whose predicted set has the label and TP + FN the number of records whose
  ground-truth set has it.
\<close>

theorem per_label_counts:
  assumes "final_pass records results = Inr m"
  shows "cnt (tp_label m) l = count_records (length records)
             (\<lambda>i. l \<in> predicted_set results i \<and> l \<in> ground_truth_set records i)
       \<and> cnt (fp_label m) l = count_records (length records)
             (\<lambda>i. l \<in> predicted_set results i \<and> l \<notin> ground_truth_set records i)
       \<and> cnt (fn_label m) l = count_records (length records)
             (\<lambda>i. l \<in> ground_truth_set records i \<and> l \<notin> predicted_set results i)
       \<and> cnt (tp_label m) l + cnt (fp_label m) l
           = count_records (length records) (\<lambda>i. l \<in> predicted_set results i)
       \<and> cnt (tp_label m) l + cnt (fn_label m) l
           = count_records (length records) (\<lambda>i. l \<in> ground_truth_set records i)"
proof -
  have tp: "cnt (tp_label m) l = count_records (length records)
             (\<lambda>i. l \<in> predicted_set results i \<and> l \<in> ground_truth_set records i)"
    by (rule final_pass_counts[OF assms,
          where g = "\<lambda>m. cnt (tp_label m) l"
            and P = "\<lambda>r rec. l \<in> set (pred_labels r) \<and> l \<in> set (parse_ground_truth_labels rec)"])
       (simp_all add: tp_step final_init_def cnt_empty predicted_set_def ground_truth_set_def)
  have fp: "cnt (fp_label m) l = count_records (length records)
             (\<lambda>i. l \<in> predicted_set results i \<and> l \<notin> ground_truth_set records i)"
    by (rule final_pass_counts[OF assms,
          where g = "\<lambda>m. cnt (fp_label m) l"
            and P = "\<lambda>r rec. l \<in> set (pred_labels r) \<and> l \<notin> set (parse_ground_truth_labels rec)"])
       (simp_all add: fp_step final_init_def cnt_empty predicted_set_def ground_truth_set_def)
  have fn: "cnt (fn_label m) l = count_records (length records)
             (\<lambda>i. l \<in> ground_truth_set records i \<and> l \<notin> predicted_set results i)"
    by (rule final_pass_counts[OF assms,
          where g = "\<lambda>m. cnt (fn_label m) l"
            and P = "\<lambda>r rec. l \<in> set (parse_ground_truth_labels rec) \<and> l \<notin> set (pred_labels r)"])
       (simp_all add: fn_step final_init_def cnt_empty predicted_set_def ground_truth_set_def)
  have s1: "cnt (tp_label m) l + cnt (fp_label m) l
              = count_records (length records) (\<lambda>i. l \<in> predicted_set results i)"
    unfolding tp fp by (rule count_records_split)
  have "count_records (length records)
             (\<lambda>i. l \<in> ground_truth_set records i \<and> l \<in> predicted_set results i)
        + count_records (length records)
             (\<lambda>i. l \<in> ground_truth_set records i \<and> l \<notin> predicted_set results i)
        = count_records (length records) (\<lambda>i. l \<in> ground_truth_set records i)"
    by (rule count_records_split)
  then have s2: "cnt (tp_label m) l + cnt (fn_label m) l
              = count_records (length records) (\<lambda>i. l \<in> ground_truth_set records i)"
    unfolding tp fn by (simp add: conj_commute)
  from tp fp fn s1 s2 show ?thesis by blast
qed
theorem per_label_counts_witness:
  "\<exists>m. final_pass
          [dict_of_items [(''comments'', JStr ''call me''), (''classification'', JStr ''pii'')],
           dict_of_items [(''classification'', JStr ''PII, conflict'')]]
          [Some \<lparr>idx = 0, xml = ''<xml>pii,credentials</xml>'',
                 pred_labels = [''pii'', ''credentials''], error = None, comment_length = 7\<rparr>,
           Some \<lparr>idx = 1, xml = ''<xml>none</xml>'', pred_labels = [],
                 error = Some ''Missing or empty 'comments'.'', comment_length = 0\<rparr>] = Inr m
       \<and> cnt (tp_label m) ''pii'' + cnt (fp_label m) ''pii'' = 1
       \<and> cnt (tp_label m) ''pii'' + cnt (fn_label m) ''pii'' = 2"
proof -
  let ?recs = "[dict_of_items [(''comments'', JStr ''call me''), (''classification'', JStr ''pii'')],
                dict_of_items [(''classification'', JStr ''PII, conflict'')]]"
  let ?ress = "[Some \<lparr>idx = 0, xml = ''<xml>pii,credentials</xml>'',
                 pred_labels = [''pii'', ''credentials''], error = None, comment_length = 7\<rparr>,
           Some \<lparr>idx = 1, xml = ''<xml>none</xml>'', pred_labels = [],
                 error = Some ''Missing or empty 'comments'.'', comment_length = 0\<rparr>]"
  have "\<forall>p \<in> set (enumerate 0 ?recs). fst p < length ?ress \<and> ?ress ! fst p \<noteq> None"
    by simp
  then obtain m where m: "final_pass ?recs ?ress = Inr m"
    unfolding final_pass_def using final_loop_total by blast
  have n: "length ?recs = 2" by simp
  have a: "count_records 2 (\<lambda>i. ''pii'' \<in> predicted_set ?ress i) = 1" by code_simp
  have b: "count_records 2 (\<lambda>i. ''pii'' \<in> ground_truth_set ?recs i) = 2" by code_simp
  from per_label_counts[OF m, of "''pii''"]
  have "cnt (tp_label m) ''pii'' + cnt (fp_label m) ''pii'' = 1
        \<and> cnt (tp_label m) ''pii'' + cnt (fn_label m) ''pii'' = 2"
    unfolding n a b by blast
  with m show ?thesis by blast
qed
section \<open>The live pass against the final pass\<close>

lemma fold_incr_commute: "fold incr xs (fold incr ys c) = fold incr ys (fold incr xs c)"
proof -
  have "fold incr (ys @ xs) = fold incr (xs @ ys)"
    by (rule fold_multiset_equiv) (auto simp: fun_eq_iff incr_commute)
  then show ?thesis by (simp add: fun_eq_iff)
qed

lemma bump_commute: "bump a (bump b n) = bump b (bump a n)"
  by (simp add: bump_def)

lemma live_update_commute:
  "live_update rec r (live_update rec' r' m) = live_update rec' r' (live_update rec r m)"
  unfolding live_update_def Let_def
  by (simp add: bump_commute fold_incr_commute[of "iter_set (pred_labels r)"])

lemma live_part_update: "live_part (final_update rec r m) = live_update rec r (live_part m)"
  by (simp add: live_part_def final_update_def live_update_def Let_def)

lemma live_part_init: "live_part final_init = live_init"
  by (simp add: live_part_def final_init_def live_init_def)

lemma live_part_fold:
  "live_part (fold (\<lambda>p. final_update (snd p) (R (fst p))) ps m0)
     = fold (\<lambda>p. live_update (snd p) (R (fst p))) ps (live_part m0)"
  by (induction ps arbitrary: m0) (simp_all add: live_part_update)

lemma loop_body_fold:
  "fold (loop_body records fut) xs st =
     (fold (\<lambda>i res. res[i := Some (future_result i (fut i))]) xs (fst st),
      fold (\<lambda>i. live_update (records ! i) (future_result i (fut i))) xs (snd st))"
  by (induction xs arbitrary: st) (simp_all add: loop_body_def Let_def)

lemma slots_length: "length (fold (\<lambda>i res. res[i := Some (R i)]) xs res) = length res"
  by (induction xs arbitrary: res) simp_all

lemma slots_nth:
  "j < length res \<Longrightarrow>
     fold (\<lambda>i res. res[i := Some (R i)]) xs res ! j = (if j \<in> set xs then Some (R j) else res ! j)"
  by (induction xs arbitrary: res) (auto simp: nth_list_update)

lemma slots_complete:
  assumes "set order = {0..<n}"
  shows "fold (\<lambda>i res. res[i := Some (R i)]) order (replicate n None) = map (\<lambda>i. Some (R i)) [0..<n]"
proof (rule nth_equalityI)
  show "length (fold (\<lambda>i res. res[i := Some (R i)]) order (replicate n None))
          = length (map (\<lambda>i. Some (R i)) [0..<n])"
    by (simp add: slots_length)
next
  fix j assume "j < length (fold (\<lambda>i res. res[i := Some (R i)]) order (replicate n None))"
  then have j: "j < n" by (simp add: slots_length)
  then show "fold (\<lambda>i res. res[i := Some (R i)]) order (replicate n None) ! j
               = map (\<lambda>i. Some (R i)) [0..<n] ! j"
    using assms by (simp add: slots_nth)
qed

lemma live_fold_permuted:
  assumes "mset order = mset [0..<n]"
  shows "fold (\<lambda>i. live_update (records ! i) (R i)) order m
           = fold (\<lambda>i. live_update (records ! i) (R i)) [0..<n] m"
proof -
  have "fold (\<lambda>i. live_update (records ! i) (R i)) order
          = fold (\<lambda>i. live_update (records ! i) (R i)) [0..<n]"
    by (rule fold_multiset_equiv[OF _ assms]) (simp add: fun_eq_iff live_update_commute)
  then show ?thesis by simp
qed

lemma live_pass_results:
  assumes "mset order = mset [0..<length records]"
  shows "fst (live_pass records fut order)
           = map (\<lambda>i. Some (future_result i (fut i))) [0..<length records]"
proof -
  have "set order = {0..<length records}"
    using mset_eq_setD[OF assms] by simp
  then show ?thesis
    unfolding live_pass_def loop_body_fold by (simp add: slots_complete)
qed

lemma live_pass_metrics:
  assumes "mset order = mset [0..<length records]"
  shows "snd (live_pass records fut order)
           = fold (\<lambda>i. live_update (records ! i) (future_result i (fut i)))
                  [0..<length records] live_init"
  unfolding live_pass_def loop_body_fold using live_fold_permuted[OF assms] by simp

lemma final_pass_complete:
  "final_pass records (map (\<lambda>i. Some (R i)) [0..<length records])
     = Inr (fold (\<lambda>p. final_update (snd p) (R (fst p))) (enumerate 0 records) final_init)"
proof -
  let ?res = "map (\<lambda>i. Some (R i)) [0..<length records]"
  have some: "\<forall>p \<in> set (enumerate 0 records). fst p < length ?res \<and> ?res ! fst p \<noteq> None"
    unfolding enumerate_map by simp
  have "fold (\<lambda>p. final_update (snd p) (the (?res ! fst p))) (enumerate 0 records) final_init
          = fold (\<lambda>p. final_update (snd p) (R (fst p))) (enumerate 0 records) final_init"
    by (rule fold_cong) (auto simp: enumerate_map)
  then show ?thesis
    unfolding final_pass_def final_loop_total[OF some] by simp
qed

lemma live_equals_final:
  assumes "mset order = mset [0..<length records]"
  shows "\<exists>m. final_pass records (fst (live_pass records fut order)) = Inr m
            \<and> live_part m = snd (live_pass records fut order)"
proof -
  let ?R = "\<lambda>i. future_result i (fut i)"
  let ?m = "fold (\<lambda>p. final_update (snd p) (?R (fst p))) (enumerate 0 records) final_init"
  have f: "final_pass records (fst (live_pass records fut order)) = Inr ?m"
    unfolding live_pass_results[OF assms] by (rule final_pass_complete)
  have "live_part ?m = fold (\<lambda>p. live_update (snd p) (?R (fst p))) (enumerate 0 records) live_init"
    using live_part_fold[of ?R "enumerate 0 records" final_init] by (simp add: live_part_init)
  also have "\<dots> = fold (\<lambda>i. live_update (records ! i) (?R i)) [0..<length records] live_init"
    unfolding enumerate_map fold_map by (simp add: comp_def)
  also have "\<dots> = snd (live_pass records fut order)"
    by (rule live_pass_metrics[OF assms, symmetric])
  finally show ?thesis using f by blast
qed

text \<open>
  Claim C1. Let the futures complete in any order that is a permutation of the record
  positions. Then the final pass over the stored results completes, and its completed
  count, exact-match count, hit count (empty against empty included) and
  predicted-label frequency table are equal to those the live pass has accumulated.
\<close>

theorem live_totals_equal_final_totals:
  assumes "mset order = mset [0..<length records]"
  shows "\<exists>m. final_pass records (fst (live_pass records fut order)) = Inr m
            \<and> num_done m = sem_num_done (snd (live_pass records fut order))
            \<and> num_exact m = sem_num_exact (snd (live_pass records fut order))
            \<and> num_hit_incl_none m = sem_num_hit_incl_none (snd (live_pass records fut order))
            \<and> pred_label_freq m = sem_pred_label_freq (snd (live_pass records fut order))"
proof -
  from live_equals_final[OF assms, of fut] obtain m where
    f: "final_pass records (fst (live_pass records fut order)) = Inr m"
    and l: "live_part m = snd (live_pass records fut order)" by blast
  have "num_done m = sem_num_done (live_part m)" "num_exact m = sem_num_exact (live_part m)"
       "num_hit_incl_none m = sem_num_hit_incl_none (live_part m)"
       "pred_label_freq m = sem_pred_label_freq (live_part m)"
    by (simp_all add: live_part_def)
  then show ?thesis using f unfolding l by blast
qed
theorem live_totals_equal_final_totals_witness:
  "\<exists>m. final_pass
          [dict_of_items [(''comments'', JStr ''call me''), (''classification'', JStr ''pii'')],
           dict_of_items [(''comments'', JStr ''hello''), (''classification'', JStr ''none'')]]
          (fst (live_pass
             [dict_of_items [(''comments'', JStr ''call me''), (''classification'', JStr ''pii'')],
              dict_of_items [(''comments'', JStr ''hello''), (''classification'', JStr ''none'')]]
             (future_outcome exact_floats (same_world [Returns [Some ''<xml>pii</xml>'']])
                [dict_of_items [(''comments'', JStr ''call me''), (''classification'', JStr ''pii'')],
                 dict_of_items [(''comments'', JStr ''hello''), (''classification'', JStr ''none'')]])
             [1, 0])) = Inr m
       \<and> num_done m = 2 \<and> num_exact m = 1 \<and> num_hit_incl_none m = 1
       \<and> cnt (pred_label_freq m) ''pii'' = 2"
proof -
  let ?recs = "[dict_of_items [(''comments'', JStr ''call me''), (''classification'', JStr ''pii'')],
                dict_of_items [(''comments'', JStr ''hello''), (''classification'', JStr ''none'')]]"
  let ?fut = "future_outcome exact_floats (same_world [Returns [Some ''<xml>pii</xml>'']]) ?recs"
  have "[0..<length ?recs] = [0, 1]" by (simp add: upt_rec)
  then have p: "mset [1, 0] = mset [0..<length ?recs]" by simp
  have a: "sem_num_done (snd (live_pass ?recs ?fut [1, 0])) = 2" by code_simp
  have b: "sem_num_exact (snd (live_pass ?recs ?fut [1, 0])) = 1" by code_simp
  have c: "sem_num_hit_incl_none (snd (live_pass ?recs ?fut [1, 0])) = 1" by code_simp
  have d: "cnt (sem_pred_label_freq (snd (live_pass ?recs ?fut [1, 0]))) ''pii'' = 2" by code_simp
  from live_totals_equal_final_totals[OF p, of ?fut] obtain m where
    "final_pass ?recs (fst (live_pass ?recs ?fut [1, 0])) = Inr m"
    "num_done m = sem_num_done (snd (live_pass ?recs ?fut [1, 0]))"
    "num_exact m = sem_num_exact (snd (live_pass ?recs ?fut [1, 0]))"
    "num_hit_incl_none m = sem_num_hit_incl_none (snd (live_pass ?recs ?fut [1, 0]))"
    "pred_label_freq m = sem_pred_label_freq (snd (live_pass ?recs ?fut [1, 0]))"
    by blast
  then show ?thesis unfolding a b c using d by (intro exI[of _ m]) simp
qed
section \<open>The dispatcher\<close>

lemma classify_record_idx:
  "fst (classify_record fl api (i, rec)) = Inr r \<Longrightarrow> idx r = i"
  unfolding classify_record_def Let_def
  by (auto split: option.splits prod.splits json.splits if_splits)

lemma future_result_idx: "idx (future_result i (future_outcome fl world records i)) = i"
proof (cases "future_outcome fl world records i")
  case (Inl e)
  then show ?thesis by (simp add: future_result_def)
next
  case (Inr r)
  then have "idx r = i" unfolding future_outcome_def by (rule classify_record_idx)
  then show ?thesis using Inr by (simp add: future_result_def)
qed

lemma live_pass_snoc:
  "loop_body records fut i (live_pass records fut ys) = live_pass records fut (ys @ [i])"
  by (simp add: live_pass_def)

lemma pool_step_invariant:
  assumes step: "pool_step W records fut s s'"
    and inv: "\<exists>ys. store s = live_pass records fut ys
               \<and> mset (queued s) + mset (running s) + mset (finished s) + mset ys
                   = mset [0..<length records]"
  shows "\<exists>ys. store s' = live_pass records fut ys
               \<and> mset (queued s') + mset (running s') + mset (finished s') + mset ys
                   = mset [0..<length records]"
proof -
  from inv obtain ys where st: "store s = live_pass records fut ys"
    and ms: "mset (queued s) + mset (running s) + mset (finished s) + mset ys
               = mset [0..<length records]" by blast
  from step show ?thesis
  proof cases
    case (start i q)
    show ?thesis
      by (rule exI[of _ ys]) (use start st ms in \<open>simp add: ac_simps\<close>)
  next
    case (finish i)
    then have "i \<in># mset (running s)" by simp
    then have "mset (remove1 i (running s)) + {#i#} = mset (running s)" by simp
    then have "mset (queued s) + mset (remove1 i (running s)) + mset (finished s @ [i]) + mset ys
                 = mset (queued s) + mset (running s) + mset (finished s) + mset ys"
      by (simp add: ac_simps)
    then show ?thesis
      by (intro exI[of _ ys]) (use finish st ms in simp)
  next
    case (yield i)
    then have "i \<in># mset (finished s)" by simp
    then have "mset (remove1 i (finished s)) + {#i#} = mset (finished s)" by simp
    then have "mset (queued s) + mset (running s) + mset (remove1 i (finished s)) + mset (ys @ [i])
                 = mset (queued s) + mset (running s) + mset (finished s) + mset ys"
      by (simp add: ac_simps)
    then show ?thesis
      by (intro exI[of _ "ys @ [i]"]) (use yield st ms in \<open>simp add: live_pass_snoc\<close>)
  qed
qed

lemma pool_invariant:
  assumes init: "dispatch_init records = Inr s0"
    and run: "rtranclp (pool_step W records fut) s0 s"
  shows "\<exists>ys. store s = live_pass records fut ys
               \<and> mset (queued s) + mset (running s) + mset (finished s) + mset ys
                   = mset [0..<length records]"
  using run
proof (induction rule: rtranclp_induct)
  case base
  from init have "s0 = \<lparr>queued = [0..<length records], running = [], finished = [],
                        store = (replicate (length records) None, live_init)\<rparr>"
    by (simp add: dispatch_init_def split: if_splits)
  then show ?case
    by (intro exI[of _ "[]"]) (simp add: live_pass_def)
next
  case (step s s')
  from pool_step_invariant[OF step.hyps(2) step.IH] show ?case .
qed

lemma pool_final_results:
  assumes init: "dispatch_init records = Inr s0"
    and run: "rtranclp (pool_step W records fut) s0 s"
    and fin: "all_done s"
  shows "fst (store s) = map (\<lambda>i. Some (future_result i (fut i))) [0..<length records]"
proof -
  from pool_invariant[OF init run] obtain ys where st: "store s = live_pass records fut ys"
    and ms: "mset (queued s) + mset (running s) + mset (finished s) + mset ys
               = mset [0..<length records]" by blast
  from ms fin have "mset ys = mset [0..<length records]" by (simp add: all_done_def)
  then show ?thesis unfolding st by (rule live_pass_results)
qed

lemma pool_one_task:
  assumes "queued s = i # q" "running s = []" "finished s = []" "0 < W"
  shows "\<exists>s'. rtranclp (pool_step W records fut) s s'
              \<and> queued s' = q \<and> running s' = [] \<and> finished s' = []"
proof -
  let ?s1 = "s\<lparr>queued := q, running := running s @ [i]\<rparr>"
  let ?s2 = "?s1\<lparr>running := remove1 i (running ?s1), finished := finished ?s1 @ [i]\<rparr>"
  let ?s3 = "?s2\<lparr>finished := remove1 i (finished ?s2),
                   store := loop_body records fut i (store ?s2)\<rparr>"
  have 1: "pool_step W records fut s ?s1"
    by (rule pool_step.start) (use assms in simp_all)
  have 2: "pool_step W records fut ?s1 ?s2"
    by (rule pool_step.finish) (use assms in simp)
  have 3: "pool_step W records fut ?s2 ?s3"
    by (rule pool_step.yield) (use assms in simp)
  have "rtranclp (pool_step W records fut) s ?s3"
    using 1 2 3 by (meson rtranclp.rtrancl_into_rtrancl rtranclp.rtrancl_refl)
  moreover have "queued ?s3 = q \<and> running ?s3 = [] \<and> finished ?s3 = []"
    using assms by simp
  ultimately show ?thesis by blast
qed

lemma pool_completes:
  assumes "running s = []" "finished s = []" "0 < W"
  shows "\<exists>s'. rtranclp (pool_step W records fut) s s' \<and> all_done s'"
  using assms
proof (induction "queued s" arbitrary: s)
  case Nil
  then have "all_done s" by (simp add: all_done_def)
  then show ?case by blast
next
  case (Cons i q)
  from pool_one_task[OF Cons.hyps(2)[symmetric] Cons.prems(1,2,3), of records fut]
  obtain s1 where r1: "rtranclp (pool_step W records fut) s s1"
    and s1: "queued s1 = q" "running s1 = []" "finished s1 = []" by blast
  from Cons.hyps(1)[OF s1(1)[symmetric] s1(2,3) Cons.prems(3)]
  obtain s' where "rtranclp (pool_step W records fut) s1 s'" "all_done s'" by blast
  with r1 show ?case by (meson rtranclp_trans)
qed

text \<open>
  Claim C9. Let there be at least one record (with none the script stops before
  dispatching) and at least one worker. Then the dispatch can run to its end, and
  at the end of every run, whatever the interleaving of the workers, the results
  collection has one entry per record, the entry at each position holds the result
  whose \<open>idx\<close> is that position, and the identifiers of the entries are exactly
  0, 1, ..., N - 1, none twice and none missing. This holds for every pool size and
  every number of records, so in particular for N = 1 and N = 50 with W = 1, 4 or 50
  and W not above N.
\<close>

theorem dispatch_positions:
  assumes "dispatch_init records = Inr s0" "0 < W"
  shows "(\<exists>s. rtranclp (pool_step W records (future_outcome fl world records)) s0 s \<and> all_done s)
       \<and> (\<forall>s. rtranclp (pool_step W records (future_outcome fl world records)) s0 s \<and> all_done s
              \<longrightarrow> length (fst (store s)) = length records
                \<and> (\<forall>i < length records. \<exists>r. fst (store s) ! i = Some r \<and> idx r = i)
                \<and> map (\<lambda>x. idx (the x)) (fst (store s)) = [0..<length records])"
proof (rule conjI)
  from assms(1) have "running s0 = []" "finished s0 = []"
    by (auto simp: dispatch_init_def split: if_splits)
  then show "\<exists>s. rtranclp (pool_step W records (future_outcome fl world records)) s0 s \<and> all_done s"
    using assms(2) by (rule pool_completes)
next
  show "\<forall>s. rtranclp (pool_step W records (future_outcome fl world records)) s0 s \<and> all_done s
              \<longrightarrow> length (fst (store s)) = length records
                \<and> (\<forall>i < length records. \<exists>r. fst (store s) ! i = Some r \<and> idx r = i)
                \<and> map (\<lambda>x. idx (the x)) (fst (store s)) = [0..<length records]"
  proof (intro allI impI)
    fix s
    assume "rtranclp (pool_step W records (future_outcome fl world records)) s0 s \<and> all_done s"
    then have r: "fst (store s) = map (\<lambda>i. Some (future_result i (future_outcome fl world records i)))
                                      [0..<length records]"
      using pool_final_results[OF assms(1)] by blast
    have 1: "length (fst (store s)) = length records" unfolding r by simp
    have 2: "\<forall>i < length records. \<exists>r. fst (store s) ! i = Some r \<and> idx r = i"
      unfolding r by (simp add: future_result_idx)
    have 3: "map (\<lambda>x. idx (the x)) (fst (store s)) = [0..<length records]"
      unfolding r by (simp add: comp_def future_result_idx map_idI)
    from 1 2 3 show "length (fst (store s)) = length records
                \<and> (\<forall>i < length records. \<exists>r. fst (store s) ! i = Some r \<and> idx r = i)
                \<and> map (\<lambda>x. idx (the x)) (fst (store s)) = [0..<length records]"
      by blast
  qed
qed
theorem dispatch_positions_witness:
  "\<exists>s. rtranclp
          (pool_step 4 (replicate 50 (dict_of_items [(''comments'', JStr ''call me'')]))
             (future_outcome exact_floats (same_world [Returns [Some ''<xml>pii</xml>'']])
                (replicate 50 (dict_of_items [(''comments'', JStr ''call me'')]))))
          \<lparr>queued = [0..<50], running = [], finished = [],
           store = (replicate 50 None, live_init)\<rparr> s
       \<and> all_done s
       \<and> length (fst (store s)) = 50
       \<and> map (\<lambda>x. idx (the x)) (fst (store s)) = [0..<50]"
proof -
  let ?recs = "replicate 50 (dict_of_items [(''comments'', JStr ''call me'')])"
  let ?s0 = "\<lparr>queued = [0..<50], running = [], finished = [],
              store = (replicate 50 None, live_init)\<rparr>"
  let ?fut = "future_outcome exact_floats (same_world [Returns [Some ''<xml>pii</xml>'']]) ?recs"
  have i: "dispatch_init ?recs = Inr ?s0" by (simp add: dispatch_init_def)
  have w: "(0::nat) < 4" by simp
  have n: "length ?recs = 50" by simp
  note t = dispatch_positions[OF i w, of exact_floats "same_world [Returns [Some ''<xml>pii</xml>'']]"]
  from t obtain s where s: "rtranclp (pool_step 4 ?recs ?fut) ?s0 s" "all_done s" by blast
  with t have "length (fst (store s)) = length ?recs
               \<and> map (\<lambda>x. idx (the x)) (fst (store s)) = [0..<length ?recs]"
    by blast
  then have "length (fst (store s)) = 50 \<and> map (\<lambda>x. idx (the x)) (fst (store s)) = [0..<50]"
    unfolding n .
  with s show ?thesis by blast
qed

end
